theory Spec2Isabelle
  imports Main
begin

unbundle bit_operations_syntax

section \<open>Hex coordinates (hexgrid.js and the copy inlined in solver-worker.js)\<close>

text \<open>
  A cell is a pair of integer coordinates \<open>q\<close>, \<open>r\<close> in odd-q offset layout.  The
  third cube coordinate \<open>s = -q - r\<close> that the JavaScript class stores is derived.
  JavaScript numbers are read as mathematical integers (the editor and the board
  generator only produce integer coordinates, on which the arithmetic below is exact).
\<close>

record hex =
  q :: int
  r :: int

definition Hex :: "int \<Rightarrow> int \<Rightarrow> hex" where
  "Hex a b = \<lparr> q = a, r = b \<rparr>"

definition hex_s :: "hex \<Rightarrow> int" where
  "hex_s h = - q h - r h"

text \<open>JavaScript's \<open>%\<close>: the remainder takes the sign of the dividend.\<close>

definition js_rem :: "int \<Rightarrow> int \<Rightarrow> int" where
  "js_rem a b = sgn a * (\<bar>a\<bar> mod \<bar>b\<bar>)"

text \<open>\<open>(x - (x & 1)) / 2\<close>; the numerator is even, so the division is exact.\<close>

definition half_even :: "int \<Rightarrow> int" where
  "half_even x = (x - (x AND 1)) div 2"

subsection \<open>solver-worker.js\<close>

definition axialToOddQ :: "hex \<Rightarrow> hex" where
  "axialToOddQ h = \<lparr> q = q h, r = r h + half_even (q h) \<rparr>"

definition oddQToAxial :: "hex \<Rightarrow> hex" where
  "oddQToAxial h = Hex (q h) (r h - half_even (q h))"

text \<open>The loop body \<open>[q, r, s] = [-r, -s, -q]\<close>, run \<open>n\<close> times.\<close>

fun wk_rot_loop :: "nat \<Rightarrow> int \<times> int \<times> int \<Rightarrow> int \<times> int \<times> int" where
  "wk_rot_loop 0 c = c"
| "wk_rot_loop (Suc n) (a, b, c) = wk_rot_loop n (- b, - c, - a)"

definition wk_rotateHex :: "hex \<Rightarrow> int \<Rightarrow> hex" where
  "wk_rotateHex h steps =
     (let ax = oddQToAxial h;
          (a, b, c) = wk_rot_loop (nat (js_rem (js_rem steps 6 + 6) 6)) (q ax, r ax, hex_s ax)
      in axialToOddQ (Hex a b))"

definition wk_addHex :: "hex \<Rightarrow> hex \<Rightarrow> hex" where
  "wk_addHex a b =
     (let aa = oddQToAxial a; bb = oddQToAxial b;
          sum = Hex (q aa + q bb) (r aa + r bb)
      in axialToOddQ sum)"

subsection \<open>hexgrid.js\<close>

text \<open>The loop body \<open>nx = -z; ny = -x; nz = -y\<close>, run \<open>n\<close> times.\<close>

fun lib_rot_loop :: "nat \<Rightarrow> int \<times> int \<times> int \<Rightarrow> int \<times> int \<times> int" where
  "lib_rot_loop 0 c = c"
| "lib_rot_loop (Suc n) (x, y, z) = lib_rot_loop n (- z, - x, - y)"

definition rotateHex :: "hex \<Rightarrow> int \<Rightarrow> hex" where
  "rotateHex h times0 =
     (let times = js_rem (js_rem times0 6 + 6) 6 in
      if times = 0 then Hex (q h) (r h)
      else
        let axial_q = q h;
            axial_r = r h - half_even (q h);
            (x, y, z) = lib_rot_loop (nat times) (axial_q, axial_r, - axial_q - axial_r);
            offset_q = x;
            offset_r = y + half_even x
        in Hex offset_q offset_r)"

definition addHex :: "hex \<Rightarrow> hex \<Rightarrow> hex" where
  "addHex a b =
     (let a_axial_q = q a;
          a_axial_r = r a - half_even (q a);
          b_axial_q = q b;
          b_axial_r = r b - half_even (q b);
          sum_axial_q = a_axial_q + b_axial_q;
          sum_axial_r = a_axial_r + b_axial_r;
          offset_q = sum_axial_q;
          offset_r = sum_axial_r + half_even sum_axial_q
      in Hex offset_q offset_r)"



section \<open>The search worker (solver-worker.js)\<close>

subsection \<open>Data\<close>

text \<open>
  The \<open>START\<close> message: the piece list as \<open>{id, size}\<close> pairs, the board size, the
  static piece order, and the packed placement tables.  \<open>placementsMeta\<close> holds six
  integers per placement (piece index, piece id, anchor index, rotation, start and
  length of the placement's slice of \<open>placementsTargets\<close>).
\<close>

record piece_info =
  pid :: int
  psize :: int

record worker_data =
  pieces :: "piece_info list"
  boardSize :: int
  pieceOrder :: "nat list"
  workerId :: nat
  boardCells :: "hex list"
  neighbors :: "int list list"
  placementsMeta :: "int list"
  placementsTargets :: "int list"
  piecePlacementStart :: "int list"
  piecePlacementCount :: "int list"
  assignedPlacementIndices :: "int list"
  initialBestCoverage :: int

text \<open>An entry of \<open>currentSolution\<close>, and an entry of an exported solution.\<close>

record sol_item =
  pieceId :: int
  anchorIdx :: int
  rot :: int
  pIdx :: int

record out_item =
  out_piece :: int
  out_anchor :: "hex option"
  out_rot :: int

text \<open>
  The worker's variables: the two typed arrays and the depth counter of \<open>solve\<close>, and
  the module-level \<open>shouldStop\<close>, \<open>searchCount\<close>, \<open>bestCoverage\<close>, \<open>topSolutions\<close>,
  together with the set of signatures already seen.  A signature is the list of
  (cell index, piece id) pairs that \<open>JSON.stringify\<close> prints.
\<close>

record wstate =
  occupancy :: "int list"
  depthStamp :: "int list"
  depth :: int
  shouldStop :: bool
  searchCount :: nat
  bestCoverage :: int
  topSolutions :: "out_item list list"
  seenSignatures :: "(int \<times> int) list set"

subsection \<open>Typed arrays\<close>

text \<open>
  A typed array has a fixed length: a read outside it is \<open>undefined\<close> (\<open>None\<close>), a
  write outside it is dropped.  An \<open>Int16Array\<close> and an \<open>Int32Array\<close> store a number
  modulo \<open>2^16\<close> and \<open>2^32\<close>.
\<close>

definition ta_get :: "int list \<Rightarrow> int \<Rightarrow> int option" where
  "ta_get a i = (if 0 \<le> i \<and> i < int (length a) then Some (a ! nat i) else None)"

definition ta_set :: "int list \<Rightarrow> int \<Rightarrow> int \<Rightarrow> int list" where
  "ta_set a i v = (if 0 \<le> i \<and> i < int (length a) then a[nat i := v] else a)"

definition to_int16 :: "int \<Rightarrow> int" where
  "to_int16 v = (v + 32768) mod 65536 - 32768"

definition to_int32 :: "int \<Rightarrow> int" where
  "to_int32 v = (v + 2147483648) mod 4294967296 - 2147483648"

text \<open>
  Field \<open>k\<close> of placement \<open>p\<close>.  The tables the coordinating side packs address only
  existing entries; where a table does not, JavaScript goes on with \<open>undefined\<close> and
  \<open>NaN\<close>, which this model does not follow (it reads 0 there).  The theorems below
  state the conditions on the tables they need.
\<close>

definition metaField :: "worker_data \<Rightarrow> int \<Rightarrow> int \<Rightarrow> int" where
  "metaField T p k = (case ta_get (placementsMeta T) (p * 6 + k) of Some v \<Rightarrow> v | None \<Rightarrow> 0)"

text \<open>
  The cells \<open>placementsTargets[ti]\<close> for \<open>ti\<close> from \<open>tStart\<close> to \<open>tStart + tLen - 1\<close>; the
  loop does not run when \<open>tStart\<close> or \<open>tLen\<close> is \<open>undefined\<close>.  A target read outside
  the table is \<open>undefined\<close>; used as an index it behaves as any index off the board
  (reads differ from -1, writes are dropped), and the model uses -1 for it.
\<close>

definition placementTargets :: "worker_data \<Rightarrow> int \<Rightarrow> int list" where
  "placementTargets T p =
     (case (ta_get (placementsMeta T) (p * 6 + 4), ta_get (placementsMeta T) (p * 6 + 5)) of
        (Some tStart, Some tLen) \<Rightarrow>
          map (\<lambda>ti. case ta_get (placementsTargets T) ti of Some c \<Rightarrow> c | None \<Rightarrow> - 1)
              [tStart .. tStart + tLen - 1]
      | _ \<Rightarrow> [])"

subsection \<open>Occupancy: apply and undo\<close>

primrec applyCells :: "int list \<Rightarrow> int \<Rightarrow> wstate \<Rightarrow> wstate" where
  "applyCells [] pieceIdx st = st"
| "applyCells (cellIdx # cs) pieceIdx st =
     applyCells cs pieceIdx
       (st\<lparr> occupancy := ta_set (occupancy st) cellIdx (to_int16 pieceIdx),
            depthStamp := ta_set (depthStamp st) cellIdx (to_int32 (depth st)) \<rparr>)"

definition applyPlacementByIndex :: "worker_data \<Rightarrow> int \<Rightarrow> int \<Rightarrow> wstate \<Rightarrow> wstate" where
  "applyPlacementByIndex T p pieceIdx st =
     applyCells (placementTargets T p) pieceIdx (st\<lparr> depth := depth st + 1 \<rparr>)"

primrec undoCells :: "int list \<Rightarrow> wstate \<Rightarrow> wstate" where
  "undoCells [] st = st"
| "undoCells (cellIdx # cs) st =
     undoCells cs
       (if ta_get (depthStamp st) cellIdx = Some (depth st)
        then st\<lparr> occupancy := ta_set (occupancy st) cellIdx (- 1),
                 depthStamp := ta_set (depthStamp st) cellIdx 0 \<rparr>
        else st)"

definition undoPlacementByIndex :: "worker_data \<Rightarrow> int \<Rightarrow> wstate \<Rightarrow> wstate" where
  "undoPlacementByIndex T p st =
     (let st' = undoCells (placementTargets T p) st in st'\<lparr> depth := depth st' - 1 \<rparr>)"

subsection \<open>Helpers of \<open>solve\<close>\<close>

definition neighborsOccupiedCount :: "worker_data \<Rightarrow> int list \<Rightarrow> int \<Rightarrow> nat" where
  "neighborsOccupiedCount T occ idx =
     (let neigh = (if 0 \<le> idx \<and> idx < int (length (neighbors T)) then neighbors T ! nat idx
                   else [])
      in length (filter (\<lambda>j. ta_get occ j \<noteq> Some (- 1)) neigh))"

definition pieceSize :: "worker_data \<Rightarrow> nat \<Rightarrow> int" where
  "pieceSize T i = (if i < length (pieces T) then psize (pieces T ! i) else 0)"

definition sumRemainingSizes :: "worker_data \<Rightarrow> nat list \<Rightarrow> int" where
  "sumRemainingSizes T remainingPieces = foldl (\<lambda>s i. s + pieceSize T i) 0 remainingPieces"

definition exportSolution :: "worker_data \<Rightarrow> sol_item list \<Rightarrow> out_item list" where
  "exportSolution T sol =
     map (\<lambda>p. \<lparr> out_piece = pieceId p,
                 out_anchor = (if 0 \<le> anchorIdx p \<and> anchorIdx p < int (length (boardCells T))
                               then Some (boardCells T ! nat (anchorIdx p)) else None),
                 out_rot = rot p \<rparr>) sol"

text \<open>
  The pairs are pushed placement by placement and sorted by cell index;
  \<open>Array.prototype.sort\<close> is stable, as \<open>sort_key\<close> is.
\<close>

definition getSolutionCellSignature :: "worker_data \<Rightarrow> sol_item list \<Rightarrow> (int \<times> int) list" where
  "getSolutionCellSignature T sol =
     sort_key fst (concat (map (\<lambda>placement.
        map (\<lambda>cellIdx. (cellIdx, pieceId placement)) (placementTargets T (pIdx placement))) sol))"

text \<open>The test \<open>ok\<close>: no target cell holds anything but -1.\<close>

definition placementFree :: "worker_data \<Rightarrow> int list \<Rightarrow> int \<Rightarrow> bool" where
  "placementFree T occ p = list_all (\<lambda>c. ta_get occ c = Some (- 1)) (placementTargets T p)"

definition pieceStart :: "worker_data \<Rightarrow> nat \<Rightarrow> int" where
  "pieceStart T i = (case ta_get (piecePlacementStart T) (int i) of Some v \<Rightarrow> v | None \<Rightarrow> 0)"

definition pieceCount :: "worker_data \<Rightarrow> nat \<Rightarrow> nat" where
  "pieceCount T i = (case ta_get (piecePlacementCount T) (int i) of Some v \<Rightarrow> nat v | None \<Rightarrow> 0)"

subsection \<open>Choosing the piece to branch on\<close>

text \<open>
  \<open>bestCount\<close> starts as \<open>Infinity\<close> (\<open>None\<close>) and \<open>bestRi\<close> as -1 (\<open>None\<close>).
  \<open>reaches count bestCount\<close> is \<open>count >= bestCount\<close>, \<open>below count bestCount\<close> is
  \<open>count < bestCount\<close>.
\<close>

definition reaches :: "nat \<Rightarrow> nat option \<Rightarrow> bool" where
  "reaches count bestCount = (case bestCount of None \<Rightarrow> False | Some b \<Rightarrow> b \<le> count)"

definition below :: "nat \<Rightarrow> nat option \<Rightarrow> bool" where
  "below count bestCount = (case bestCount of None \<Rightarrow> True | Some b \<Rightarrow> count < b)"

text \<open>The inner counting loop over the placement offsets of one piece, with its \<open>break\<close>.\<close>

fun countValid ::
    "worker_data \<Rightarrow> int list \<Rightarrow> nat option \<Rightarrow> int \<Rightarrow> nat list \<Rightarrow> nat \<Rightarrow> nat" where
  "countValid T occ bestCount pStart [] count = count"
| "countValid T occ bestCount pStart (off # offs) count =
     (if placementFree T occ (pStart + int off)
      then (if reaches (count + 1) bestCount then count + 1
            else countValid T occ bestCount pStart offs (count + 1))
      else countValid T occ bestCount pStart offs count)"

text \<open>The outer loop over \<open>remainingPieces\<close>, from index \<open>ri\<close> on.\<close>

fun selectLoop ::
    "worker_data \<Rightarrow> int list \<Rightarrow> nat list \<Rightarrow> nat \<Rightarrow> nat option \<times> nat option
       \<Rightarrow> nat option \<times> nat option" where
  "selectLoop T occ [] ri best = best"
| "selectLoop T occ (pi # rest) ri (bestRi, bestCount) =
     (let count = countValid T occ bestCount (pieceStart T pi) [0 ..< pieceCount T pi] 0
      in selectLoop T occ rest (ri + 1)
           (if 0 < count \<and> below count bestCount then (Some ri, Some count)
            else (bestRi, bestCount)))"

definition selectPiece :: "worker_data \<Rightarrow> int list \<Rightarrow> nat list \<Rightarrow> nat option" where
  "selectPiece T occ remainingPieces = fst (selectLoop T occ remainingPieces 0 (None, None))"

text \<open>The list \<open>valid\<close> of \<open>{pIdx, adj}\<close> pairs of the chosen piece, and its sort.\<close>

definition validPlacements :: "worker_data \<Rightarrow> int list \<Rightarrow> nat \<Rightarrow> (int \<times> nat) list" where
  "validPlacements T occ chosenPi =
     map (\<lambda>p. (p, sum_list (map (neighborsOccupiedCount T occ) (placementTargets T p))))
       (filter (placementFree T occ)
          (map (\<lambda>off. pieceStart T chosenPi + int off) [0 ..< pieceCount T chosenPi]))"

definition sortByAdj :: "(int \<times> nat) list \<Rightarrow> (int \<times> nat) list" where
  "sortByAdj valid = sort_key (\<lambda>v. - int (snd v)) valid"

definition mkItem :: "worker_data \<Rightarrow> int \<Rightarrow> sol_item" where
  "mkItem T p = \<lparr> pieceId = metaField T p 1, anchorIdx = metaField T p 2,
                  rot = metaField T p 3, pIdx = p \<rparr>"

text \<open>\<open>remainingPieces.slice(0, bestRi).concat(remainingPieces.slice(bestRi + 1))\<close>\<close>

definition dropAt :: "nat \<Rightarrow> 'a list \<Rightarrow> 'a list" where
  "dropAt i xs = take i xs @ drop (i + 1) xs"

subsection \<open>Recording a solution\<close>

definition recordSolution :: "worker_data \<Rightarrow> sol_item list \<Rightarrow> int \<Rightarrow> wstate \<Rightarrow> wstate" where
  "recordSolution T currentSolution coverage st =
     (if bestCoverage st < coverage then
        st\<lparr> bestCoverage := coverage,
            topSolutions := [exportSolution T currentSolution],
            seenSignatures := {getSolutionCellSignature T currentSolution} \<rparr>
      else if coverage = bestCoverage st \<and> 0 < coverage then
        (let signature = getSolutionCellSignature T currentSolution in
         if signature \<notin> seenSignatures st then
           st\<lparr> seenSignatures := insert signature (seenSignatures st),
               topSolutions := topSolutions st @ [exportSolution T currentSolution] \<rparr>
         else st)
      else st)"

subsection \<open>The backtracking procedure\<close>

lemma selectLoop_bound:
  "selectLoop T occ ps ri best = (Some i, c) \<Longrightarrow> (\<forall>j. fst best = Some j \<longrightarrow> j < ri)
     \<Longrightarrow> i < ri + length ps"
proof (induction ps arbitrary: ri best)
  case Nil
  then show ?case by (cases best) auto
next
  case (Cons a ps)
  obtain bi bc where b: "best = (bi, bc)" by (cases best)
  show ?case
    using Cons.IH[of "Suc ri"] Cons.prems unfolding b
    by (fastforce simp: Let_def split: if_splits)
qed

lemma selectPiece_bound: "selectPiece T occ ps = Some i \<Longrightarrow> i < length ps"
  unfolding selectPiece_def
  using selectLoop_bound[of T occ ps 0 "(None, None)" i "snd (selectLoop T occ ps 0 (None, None))"]
  by (cases "selectLoop T occ ps 0 (None, None)") auto

lemma length_dropAt: "i < length xs \<Longrightarrow> length (dropAt i xs) < length xs"
  by (simp add: dropAt_def)

text \<open>
  \<open>backtrack\<close> returns the flag the JavaScript function returns and the worker's
  variables after the call.  \<open>tryPlacements\<close> is its final loop over the sorted list
  \<open>valid\<close>.  \<open>currentSolution\<close> is pushed before and popped after the recursive call, so
  the callee sees the extended list and the caller's list is unchanged.  The progress
  message posted once a second changes no variable and is left out.
\<close>

function backtrack ::
    "worker_data \<Rightarrow> nat list \<Rightarrow> int \<Rightarrow> sol_item list \<Rightarrow> int \<Rightarrow> wstate \<Rightarrow> bool \<times> wstate"
  and tryPlacements ::
    "worker_data \<Rightarrow> nat list \<Rightarrow> nat \<Rightarrow> int \<Rightarrow> sol_item list \<Rightarrow> int \<Rightarrow> (int \<times> nat) list
       \<Rightarrow> wstate \<Rightarrow> bool \<times> wstate"
  where
  "backtrack T remainingPieces remainingSum currentSolution coverage st0 =
     (if shouldStop st0 then (True, st0)
      else
        let st = recordSolution T currentSolution coverage
                   (st0\<lparr> searchCount := searchCount st0 + 1 \<rparr>)
        in if boardSize T \<le> coverage then (True, st)
           else if coverage + remainingSum \<le> bestCoverage st then (False, st)
           else if remainingPieces = [] then (False, st)
           else (case selectPiece T (occupancy st) remainingPieces of
                   None \<Rightarrow> (False, st)
                 | Some bestRi \<Rightarrow>
                     (let valid = validPlacements T (occupancy st) (remainingPieces ! bestRi)
                      in if valid = [] then (False, st)
                         else tryPlacements T remainingPieces bestRi remainingSum
                                currentSolution coverage (sortByAdj valid) st)))"
| "tryPlacements T remainingPieces bestRi remainingSum currentSolution coverage [] st =
     (False, st)"
| "tryPlacements T remainingPieces bestRi remainingSum currentSolution coverage (v # vs) st =
     (if shouldStop st then (True, st)
      else
        let chosenPi = remainingPieces ! bestRi;
            p = fst v;
            st1 = applyPlacementByIndex T p (int chosenPi) st;
            newRemaining = dropAt bestRi remainingPieces;
            newRemainingSum = remainingSum - pieceSize T chosenPi;
            (stopped, st2) = backtrack T newRemaining newRemainingSum
                               (currentSolution @ [mkItem T p]) (coverage + metaField T p 5) st1;
            st3 = undoPlacementByIndex T p st2
        in if stopped then (True, st3)
           else tryPlacements T remainingPieces bestRi remainingSum currentSolution coverage vs st3)"
  by pat_completeness auto
termination
  apply (relation "inv_image (less_than <*lex*> less_than)
     (\<lambda>x. case x of
        Inl (T, rem, remSum, cur, cov, st) \<Rightarrow> (2 * length rem + 1, 0)
      | Inr (T, rem, bestRi, remSum, cur, cov, vs, st) \<Rightarrow>
          (2 * length (dropAt bestRi rem) + 2, length vs))")
  subgoal by (intro wf_inv_image wf_lex_prod wf_less_than)
  subgoal for T remainingPieces remainingSum currentSolution coverage st0 x x2 xa
    using length_dropAt[OF selectPiece_bound, of T "occupancy x" remainingPieces x2]
    by simp
  subgoal by simp
  subgoal by simp
  done

declare backtrack.simps [simp del]

subsection \<open>\<open>solve\<close>: the loop over the assigned first-piece placements\<close>

text \<open>
  \<open>pieceOrder[0]\<close>; with an empty piece order it is \<open>undefined\<close>, which an
  \<open>Int16Array\<close> stores as 0.
\<close>

definition firstPiece :: "worker_data \<Rightarrow> nat" where
  "firstPiece T = (case pieceOrder T of [] \<Rightarrow> 0 | i # _ \<Rightarrow> i)"

text \<open>\<open>pieceId = placementsMeta[base + 1] || pieces[firstPieceIdx].id\<close>\<close>

definition firstItem :: "worker_data \<Rightarrow> int \<Rightarrow> sol_item" where
  "firstItem T p =
     \<lparr> pieceId = (if metaField T p 1 \<noteq> 0 then metaField T p 1
                     else if firstPiece T < length (pieces T) then pid (pieces T ! firstPiece T)
                     else 0),
       anchorIdx = metaField T p 2, rot = metaField T p 3, pIdx = p \<rparr>"

text \<open>The value \<open>backtrack\<close> returns to this loop is not used.\<close>

fun solveLoop :: "worker_data \<Rightarrow> int list \<Rightarrow> wstate \<Rightarrow> wstate" where
  "solveLoop T [] st = st"
| "solveLoop T (p # ps) st =
     (if shouldStop st then st
      else
        let st1 = applyPlacementByIndex T p (int (firstPiece T)) st;
            remainingAfterFirst = drop 1 (pieceOrder T);
            remainingAfterFirstSum = sumRemainingSizes T remainingAfterFirst;
            (stopped, st2) = backtrack T remainingAfterFirst remainingAfterFirstSum
                               [firstItem T p] (metaField T p 5) st1;
            st3 = undoPlacementByIndex T p st2
        in solveLoop T ps (st3\<lparr> depth := 0 \<rparr>))"

text \<open>
  The \<open>START\<close> handler resets the module variables, \<open>solve\<close> allocates the arrays.  The
  search runs to its end inside that one handler call, so no \<open>STOP\<close> or \<open>UPDATE_BEST\<close>
  message is handled while it runs: \<open>shouldStop\<close> is read but never changed below.
\<close>

definition initialState :: "worker_data \<Rightarrow> wstate" where
  "initialState T =
     \<lparr> occupancy = replicate (nat (boardSize T)) (- 1),
       depthStamp = replicate (nat (boardSize T)) 0,
       depth = 0, shouldStop = False, searchCount = 0,
       bestCoverage = initialBestCoverage T,
       topSolutions = [], seenSignatures = {} \<rparr>"

definition solve :: "worker_data \<Rightarrow> wstate" where
  "solve T = solveLoop T (assignedPlacementIndices T) (initialState T)"

text \<open>The \<open>COMPLETE\<close> message.\<close>

record complete_msg =
  msgSolutions :: "out_item list list"
  msgCoverage :: int
  msgSearchCount :: nat
  msgWorkerId :: nat

definition completeMessage :: "worker_data \<Rightarrow> complete_msg" where
  "completeMessage T =
     (let st = solve T in
      \<lparr> msgSolutions = topSolutions st, msgCoverage = bestCoverage st,
        msgSearchCount = searchCount st, msgWorkerId = workerId T \<rparr>)"


section \<open>The coordinating side (\<open>solveWithWorkers\<close>)\<close>

subsection \<open>Input, board and placements\<close>

text \<open>
  A piece of the catalogue is its id and its cell offsets (the colour plays no part in
  the search).  The input of a run: the board width and height, the catalogue, the
  rotation checkbox, and the number of workers (\<open>navigator.hardwareConcurrency || 4\<close>).
\<close>

record piece_def =
  piece_id :: int
  piece_cells :: "hex list"

record solver_input =
  boardW :: nat
  boardH :: nat
  inPieces :: "piece_def list"
  allowRotations :: bool
  numWorkers :: nat

record placement =
  pl_pieceIdx :: nat
  pl_pieceId :: int
  pl_anchorIdx :: nat
  pl_rot :: nat
  pl_targets :: "nat list"

text \<open>
  \<open>generateRect(w, h)\<close> fills the grid's \<open>Map\<close> column by column; a \<open>Map\<close> iterates in
  insertion order, so the grid is the list of its cells.  The key \<open>q + ',' + r\<close> of a
  cell determines the cell, and the model uses the cell itself as key.
\<close>

definition generateRect :: "nat \<Rightarrow> nat \<Rightarrow> hex list" where
  "generateRect w h = concat (map (\<lambda>a. map (\<lambda>b. Hex (int a) (int b)) [0 ..< h]) [0 ..< w])"

definition boardGrid :: "solver_input \<Rightarrow> hex list" where
  "boardGrid inp = generateRect (max 1 (boardW inp)) (max 1 (boardH inp))"

text \<open>\<open>boardCells.forEach((hex, idx) => cellIndexMap.set(hex.key(), idx))\<close>\<close>

definition cellIndexMap :: "hex list \<Rightarrow> hex \<Rightarrow> nat option" where
  "cellIndexMap bcells = fold (\<lambda>(idx, h) m. m(h \<mapsto> idx)) (enumerate 0 bcells) Map.empty"

definition HEX_DIRECTIONS :: "hex list" where
  "HEX_DIRECTIONS = [Hex 1 0, Hex 1 (- 1), Hex 0 (- 1), Hex (- 1) 0, Hex (- 1) 1, Hex 0 1]"

definition add :: "hex \<Rightarrow> hex \<Rightarrow> hex" where
  "add a b = Hex (q a + q b) (r a + r b)"

text \<open>\<open>HexGrid.neighbors\<close>: the six neighbours that are cells of the grid.\<close>

definition gridNeighbors :: "hex list \<Rightarrow> hex \<Rightarrow> hex list" where
  "gridNeighbors bcells h = filter (\<lambda>n. n \<in> set bcells) (map (add h) HEX_DIRECTIONS)"

definition neighborIndices :: "hex list \<Rightarrow> int list list" where
  "neighborIndices bcells =
     map (\<lambda>h. map (\<lambda>n. case cellIndexMap bcells n of Some i \<Rightarrow> int i | None \<Rightarrow> - 1)
                (gridNeighbors bcells h)) bcells"

text \<open>
  The loop over a piece's offsets for one rotation and anchor: it stops at the first
  target that is not on the board, and otherwise collects the target indices.
\<close>

fun placeTargets :: "hex list \<Rightarrow> hex \<Rightarrow> nat \<Rightarrow> hex list \<Rightarrow> nat list option" where
  "placeTargets bcells a rt [] = Some []"
| "placeTargets bcells a rt (off # offs) =
     (case cellIndexMap bcells (addHex a (rotateHex off (int rt))) of
        None \<Rightarrow> None
      | Some idx \<Rightarrow> map_option ((#) idx) (placeTargets bcells a rt offs))"

definition rotLimit :: "solver_input \<Rightarrow> nat" where
  "rotLimit inp = (if \<not> allowRotations inp then 1 else 6)"

text \<open>The anchor is a cell of the grid, so its index is found.\<close>

definition piecePlacementsOf :: "solver_input \<Rightarrow> nat \<Rightarrow> piece_def \<Rightarrow> placement list" where
  "piecePlacementsOf inp i pc =
     concat (map (\<lambda>rt.
       concat (map (\<lambda>a.
         case placeTargets (boardGrid inp) a rt (piece_cells pc) of
           None \<Rightarrow> []
         | Some targets \<Rightarrow>
             [\<lparr> pl_pieceIdx = i, pl_pieceId = piece_id pc,
                pl_anchorIdx = (case cellIndexMap (boardGrid inp) a of Some k \<Rightarrow> k | None \<Rightarrow> 0),
                pl_rot = rt, pl_targets = targets \<rparr>]) (boardGrid inp))) [0 ..< rotLimit inp])"

definition piecePlacements :: "solver_input \<Rightarrow> placement list list" where
  "piecePlacements inp = map (\<lambda>(i, pc). piecePlacementsOf inp i pc) (enumerate 0 (inPieces inp))"

text \<open>Static ordering: piece indices sorted by their number of placements (stable).\<close>

definition mainPieceOrder :: "solver_input \<Rightarrow> nat list" where
  "mainPieceOrder inp =
     sort_key (\<lambda>i. length (piecePlacements inp ! i)) [0 ..< length (inPieces inp)]"

subsection \<open>Packing and work packages\<close>

text \<open>
  One row of six integers per placement, the targets concatenated, and per piece the
  index of its first placement and its number of placements.  The four tables are
  \<open>Int32Array\<close>s: every number written to them is stored modulo \<open>2^32\<close> (\<open>to_int32\<close>).
\<close>

fun packMeta :: "placement list \<Rightarrow> nat \<Rightarrow> int list" where
  "packMeta [] targetCursor = []"
| "packMeta (pl # pls) targetCursor =
     [to_int32 (int (pl_pieceIdx pl)), to_int32 (pl_pieceId pl), to_int32 (int (pl_anchorIdx pl)),
      to_int32 (int (pl_rot pl)), to_int32 (int targetCursor),
      to_int32 (int (length (pl_targets pl)))]
     @ packMeta pls (targetCursor + length (pl_targets pl))"

fun packStarts :: "placement list list \<Rightarrow> nat \<Rightarrow> int list" where
  "packStarts [] placementIdx = []"
| "packStarts (l # ls) placementIdx =
     to_int32 (int placementIdx) # packStarts ls (placementIdx + length l)"

definition workerData :: "solver_input \<Rightarrow> nat \<Rightarrow> int list \<Rightarrow> worker_data" where
  "workerData inp i assigned =
     \<lparr> pieces = map (\<lambda>p. \<lparr> pid = piece_id p, psize = int (length (piece_cells p)) \<rparr>)
                  (inPieces inp),
       boardSize = int (max 1 (boardW inp) * max 1 (boardH inp)),
       pieceOrder = mainPieceOrder inp,
       workerId = i,
       boardCells = boardGrid inp,
       neighbors = neighborIndices (boardGrid inp),
       placementsMeta = packMeta (concat (piecePlacements inp)) 0,
       placementsTargets =
         map (\<lambda>t. to_int32 (int t)) (concat (map pl_targets (concat (piecePlacements inp)))),
       piecePlacementStart = packStarts (piecePlacements inp) 0,
       piecePlacementCount = map (\<lambda>l. to_int32 (int (length l))) (piecePlacements inp),
       assignedPlacementIndices = assigned,
       initialBestCoverage = 0 \<rparr>"

text \<open>
  The spawn loop \<open>for (i = 0; i < numWorkers && i * placementsPerWorker < firstPieceCount; i++)\<close>;
  it runs at most \<open>numWorkers\<close> times.  Each worker is paired with its slice of the first
  piece's placement indices, an \<open>Int32Array\<close> holding \<open>firstPieceStart + k\<close> for the \<open>k\<close> of
  the slice.
\<close>

fun spawnLoop :: "nat \<Rightarrow> nat \<Rightarrow> nat \<Rightarrow> nat \<Rightarrow> int \<Rightarrow> nat \<Rightarrow> (nat \<times> int list) list" where
  "spawnLoop 0 i nW perWorker firstStart firstCount = []"
| "spawnLoop (Suc fuel) i nW perWorker firstStart firstCount =
     (if i < nW \<and> i * perWorker < firstCount then
        (let startIdx = i * perWorker;
             endIdx = min (startIdx + perWorker) firstCount
         in (i, map (\<lambda>k. to_int32 (firstStart + int k)) [startIdx ..< endIdx])
            # spawnLoop fuel (i + 1) nW perWorker firstStart firstCount)
      else [])"

text \<open>
  With an empty catalogue \<open>pieceOrder[0]\<close> is \<open>undefined\<close>, the count is \<open>undefined\<close> and
  the loop condition is false.  \<open>firstPieceStart\<close> and \<open>firstPieceCount\<close> are read back from
  the two \<open>Int32Array\<close>s; with a count read as negative the loop condition is false at
  \<open>i = 0\<close>, as it is with the count 0 that \<open>nat\<close> makes of it.
  \<open>Math.ceil(firstPieceCount / numWorkers)\<close> is computed on naturals.  All workers are
  created before any message is handled, so every worker starts with
  \<open>initialBestCoverage = 0\<close>.
\<close>

definition workPackages :: "solver_input \<Rightarrow> worker_data list" where
  "workPackages inp =
     (case mainPieceOrder inp of
        [] \<Rightarrow> []
      | firstPieceIdx # _ \<Rightarrow>
          (let firstPieceStart = packStarts (piecePlacements inp) 0 ! firstPieceIdx;
               firstPieceCount =
                 nat (map (\<lambda>l. to_int32 (int (length l))) (piecePlacements inp) ! firstPieceIdx);
               placementsPerWorker = (firstPieceCount + numWorkers inp - 1) div numWorkers inp
           in map (\<lambda>(i, assigned). workerData inp i assigned)
                (spawnLoop (numWorkers inp) 0 (numWorkers inp) placementsPerWorker
                   firstPieceStart firstPieceCount)))"

subsection \<open>Aggregation of the workers' results\<close>

text \<open>
  The variables the \<open>COMPLETE\<close> handler changes; \<open>finished\<close> records that the branch
  \<open>completedWorkers >= workers.length\<close> (the final report) has run.  The search-count
  statistics are left out.
\<close>

record main_state =
  m_bestCoverage :: int
  m_topSolutions :: "out_item list list"
  completedWorkers :: nat
  finished :: bool

definition findPiece :: "piece_def list \<Rightarrow> int \<Rightarrow> piece_def option" where
  "findPiece ps i = find (\<lambda>p. piece_id p = i) ps"

text \<open>
  The replay of one exported placement: rotate each offset of the piece, translate by
  the anchor, keep the cells that are on the board.  A placement whose piece is not
  found is skipped.
\<close>

definition replayTargets :: "solver_input \<Rightarrow> out_item \<Rightarrow> nat list" where
  "replayTargets inp pl =
     (case (findPiece (inPieces inp) (out_piece pl), out_anchor pl) of
        (Some pc, Some a) \<Rightarrow>
          concat (map (\<lambda>off. case cellIndexMap (boardGrid inp) (addHex a (rotateHex off (out_rot pl))) of
                               None \<Rightarrow> [] | Some idx \<Rightarrow> [idx]) (piece_cells pc))
      | _ \<Rightarrow> [])"

definition m_getSolutionCellSignature :: "solver_input \<Rightarrow> out_item list \<Rightarrow> (nat \<times> int) list" where
  "m_getSolutionCellSignature inp solution =
     sort_key fst (concat (map (\<lambda>pl. map (\<lambda>c. (c, out_piece pl)) (replayTargets inp pl)) solution))"

text \<open>The merge loop over a worker's solutions, with the set \<open>existingSignatures\<close>.\<close>

fun mergeSolutions :: "solver_input \<Rightarrow> out_item list list \<Rightarrow> (nat \<times> int) list set
    \<Rightarrow> out_item list list \<Rightarrow> out_item list list" where
  "mergeSolutions inp [] existing tops = tops"
| "mergeSolutions inp (newSol # rest) existing tops =
     (let signature = m_getSolutionCellSignature inp newSol in
      if signature \<notin> existing
      then mergeSolutions inp rest (insert signature existing) (tops @ [newSol])
      else mergeSolutions inp rest existing tops)"

definition onComplete :: "solver_input \<Rightarrow> nat \<Rightarrow> main_state \<Rightarrow> complete_msg \<Rightarrow> main_state" where
  "onComplete inp nWorkers ms msg =
     (let ms1 = ms\<lparr> completedWorkers := completedWorkers ms + 1 \<rparr>;
          ms2 = (if m_bestCoverage ms1 < msgCoverage msg then
                   ms1\<lparr> m_bestCoverage := msgCoverage msg, m_topSolutions := msgSolutions msg \<rparr>
                 else if msgCoverage msg = m_bestCoverage ms1 then
                   ms1\<lparr> m_topSolutions :=
                          mergeSolutions inp (msgSolutions msg)
                            (set (map (m_getSolutionCellSignature inp) (m_topSolutions ms1)))
                            (m_topSolutions ms1) \<rparr>
                 else ms1)
      in if nWorkers \<le> completedWorkers ms2 then ms2\<lparr> finished := True \<rparr> else ms2)"

text \<open>
  A run: the work packages are built, every worker searches its slice, and the
  \<open>COMPLETE\<close> messages are handled one at a time in their order of arrival, given as the
  list \<open>arrival\<close> of worker numbers.
\<close>

definition initialMain :: main_state where
  "initialMain = \<lparr> m_bestCoverage = 0, m_topSolutions = [], completedWorkers = 0, finished = False \<rparr>"

definition solveWithWorkers :: "solver_input \<Rightarrow> nat list \<Rightarrow> main_state" where
  "solveWithWorkers inp arrival =
     (let ws = workPackages inp
      in foldl (onComplete inp (length ws)) initialMain
           (map (\<lambda>i. completeMessage (ws ! i)) arrival))"


section \<open>Facts about the hex arithmetic\<close>

text \<open>Cube triples, and the two conversions both files spell out inline.\<close>

definition toAx :: "hex \<Rightarrow> int \<times> int \<times> int" where
  "toAx h = (q h, r h - half_even (q h), - q h - (r h - half_even (q h)))"

definition toOff :: "int \<times> int \<times> int \<Rightarrow> hex" where
  "toOff c = (case c of (x, y, z) \<Rightarrow> Hex x (y + half_even x))"

definition cube_ok :: "int \<times> int \<times> int \<Rightarrow> bool" where
  "cube_ok c = (case c of (x, y, z) \<Rightarrow> x + y + z = 0)"

lemma js_norm: "js_rem (js_rem k 6 + 6) 6 = k mod 6"
proof (cases "0 \<le> k")
  case True
  then show ?thesis by (simp add: js_rem_def sgn_if abs_if)
next
  case False
  then have k: "k < 0" by simp
  define m where "m = (- k) mod 6"
  have m: "0 \<le> m" "m < 6" by (simp_all add: m_def)
  have e: "k mod 6 = (6 - m) mod 6"
    unfolding m_def by presburger
  from k m e show ?thesis
    by (simp add: js_rem_def sgn_if abs_if m_def[symmetric])
qed

lemma half_even_div: "half_even x = x div 2"
  unfolding half_even_def and_one_eq by presburger

lemma wk_rot_loop_add: "wk_rot_loop (m + n) c = wk_rot_loop n (wk_rot_loop m c)"
  by (induction m c rule: wk_rot_loop.induct) auto

lemma lib_rot_loop_add: "lib_rot_loop (m + n) c = lib_rot_loop n (lib_rot_loop m c)"
  by (induction m c rule: lib_rot_loop.induct) auto

lemma wk_rot_loop_6: "wk_rot_loop 6 c = c"
  by (cases c) (simp add: numeral_eq_Suc)

lemma lib_rot_loop_6: "lib_rot_loop 6 c = c"
  by (cases c) (simp add: numeral_eq_Suc)

lemma toOff_toAx: "toOff (toAx h) = h"
  by (simp add: toOff_def toAx_def Hex_def)

lemma toAx_toOff: "cube_ok c \<Longrightarrow> toAx (toOff c) = c"
  by (cases c) (auto simp: toOff_def toAx_def Hex_def cube_ok_def)

lemma cube_ok_toAx: "cube_ok (toAx h)"
  by (simp add: cube_ok_def toAx_def)

lemma cube_ok_lib: "cube_ok c \<Longrightarrow> cube_ok (lib_rot_loop n c)"
  by (induction n c rule: lib_rot_loop.induct) (auto simp: cube_ok_def)

lemma cube_ok_wk: "cube_ok c \<Longrightarrow> cube_ok (wk_rot_loop n c)"
  by (induction n c rule: wk_rot_loop.induct) (auto simp: cube_ok_def)

lemma rotateHex_closed: "rotateHex h k = toOff (lib_rot_loop (nat (k mod 6)) (toAx h))"
  by (auto simp: rotateHex_def js_norm Let_def toOff_def toAx_def Hex_def split: prod.splits)

lemma wk_rotateHex_closed: "wk_rotateHex h k = toOff (wk_rot_loop (nat (k mod 6)) (toAx h))"
  by (auto simp: wk_rotateHex_def js_norm Let_def toOff_def toAx_def Hex_def oddQToAxial_def
      axialToOddQ_def hex_s_def split: prod.splits)


lemma lib_iter: "((\<lambda>c. rotateHex c 1) ^^ n) h = toOff (lib_rot_loop n (toAx h))"
proof (induction n)
  case 0
  show ?case by (simp add: toOff_toAx)
next
  case (Suc n)
  have "lib_rot_loop (n + 1) (toAx h) = lib_rot_loop 1 (lib_rot_loop n (toAx h))"
    by (rule lib_rot_loop_add)
  with Suc show ?case
    by (simp add: rotateHex_closed toAx_toOff cube_ok_lib cube_ok_toAx)
qed

lemma wk_iter: "((\<lambda>c. wk_rotateHex c 1) ^^ n) h = toOff (wk_rot_loop n (toAx h))"
proof (induction n)
  case 0
  show ?case by (simp add: toOff_toAx)
next
  case (Suc n)
  have "wk_rot_loop (n + 1) (toAx h) = wk_rot_loop 1 (wk_rot_loop n (toAx h))"
    by (rule wk_rot_loop_add)
  with Suc show ?case
    by (simp add: wk_rotateHex_closed toAx_toOff cube_ok_wk cube_ok_toAx)
qed

lemma range_six:
  fixes f :: "int \<Rightarrow> 'a"
  assumes "\<And>k. f k = f (k mod 6)"
  shows "finite (range f) \<and> card (range f) \<le> 6"
proof -
  have "range f \<subseteq> f ` {0..<6::int}"
  proof
    fix y assume "y \<in> range f"
    then obtain k where "y = f k" by auto
    then have "y = f (k mod 6)" using assms by simp
    moreover have "k mod 6 \<in> {0..<6}" by simp
    ultimately show "y \<in> f ` {0..<6}" by blast
  qed
  moreover have "finite (f ` {0..<6::int})" by simp
  moreover have "card (f ` {0..<6::int}) \<le> 6"
    using card_image_le[of "{0..<6::int}" f] by simp
  ultimately show ?thesis
    by (meson card_mono finite_subset le_trans)
qed

text \<open>
  C10.  Both rotation functions (the library's and the worker's inlined one) depend on
  the step count only through \<open>((k % 6) + 6) % 6\<close>, are the identity at 0 steps, and
  return to the start after six single steps; so the rotations of a piece (its cell list
  rotated by any integer count) form a set of at most six cell lists.
\<close>

theorem rotateHex_period_six:
  "rotateHex h k = rotateHex h (js_rem (js_rem k 6 + 6) 6)
   \<and> rotateHex h 0 = h
   \<and> ((\<lambda>c. rotateHex c 1) ^^ 6) h = h
   \<and> wk_rotateHex h k = wk_rotateHex h (js_rem (js_rem k 6 + 6) 6)
   \<and> wk_rotateHex h 0 = h
   \<and> ((\<lambda>c. wk_rotateHex c 1) ^^ 6) h = h
   \<and> finite (range (\<lambda>n. map (\<lambda>c. rotateHex c n) cells))
   \<and> card (range (\<lambda>n. map (\<lambda>c. rotateHex c n) cells)) \<le> 6
   \<and> finite (range (\<lambda>n. map (\<lambda>c. wk_rotateHex c n) cells))
   \<and> card (range (\<lambda>n. map (\<lambda>c. wk_rotateHex c n) cells)) \<le> 6"
proof -
  have a: "rotateHex h k = rotateHex h (js_rem (js_rem k 6 + 6) 6)"
    by (simp add: rotateHex_closed js_norm)
  have b: "rotateHex h 0 = h"
    by (simp add: rotateHex_closed toOff_toAx)
  have c: "((\<lambda>c. rotateHex c 1) ^^ 6) h = h"
    by (simp only: lib_iter lib_rot_loop_6 toOff_toAx)
  have d: "wk_rotateHex h k = wk_rotateHex h (js_rem (js_rem k 6 + 6) 6)"
    by (simp add: wk_rotateHex_closed js_norm)
  have e: "wk_rotateHex h 0 = h"
    by (simp add: wk_rotateHex_closed toOff_toAx)
  have f: "((\<lambda>c. wk_rotateHex c 1) ^^ 6) h = h"
    by (simp only: wk_iter wk_rot_loop_6 toOff_toAx)
  have g: "finite (range (\<lambda>n. map (\<lambda>c. rotateHex c n) cells))
         \<and> card (range (\<lambda>n. map (\<lambda>c. rotateHex c n) cells)) \<le> 6"
    by (rule range_six) (simp add: rotateHex_closed)
  have i: "finite (range (\<lambda>n. map (\<lambda>c. wk_rotateHex c n) cells))
         \<and> card (range (\<lambda>n. map (\<lambda>c. wk_rotateHex c n) cells)) \<le> 6"
    by (rule range_six) (simp add: wk_rotateHex_closed)
  from a b c d e f g i show ?thesis by blast
qed

text \<open>
  The translation functions of the two files agree on every pair of cells.  The rotation
  functions do not: one worker step undoes one library step, so the worker turns a cell
  the opposite way round.
\<close>

lemma wk_addHex_eq_addHex: "wk_addHex a b = addHex a b"
  by (simp add: wk_addHex_def addHex_def Let_def oddQToAxial_def axialToOddQ_def Hex_def)

lemma wk_undoes_lib_step: "wk_rot_loop 1 (lib_rot_loop 1 c) = c"
  by (cases c) simp

text \<open>
  C2.  The claim that the worker's inlined \<open>rotateHex\<close> computes the same cell as the
  library's fails: for the offset \<open>(1, 0)\<close> and one rotation step the worker yields
  \<open>(0, 1)\<close> while the library yields \<open>(1, -1)\<close>.
\<close>

theorem wk_rotateHex_differs_from_library:
  "wk_rotateHex (Hex 1 0) 1 = Hex 0 1 \<and> rotateHex (Hex 1 0) 1 = Hex 1 (- 1)
   \<and> wk_rotateHex (Hex 1 0) 1 \<noteq> rotateHex (Hex 1 0) 1"
  by (simp add: wk_rotateHex_def rotateHex_def js_rem_def Let_def oddQToAxial_def axialToOddQ_def
        Hex_def hex_s_def half_even_def)

section \<open>Apply and undo\<close>

definition core :: "wstate \<Rightarrow> int list \<times> int list \<times> int" where
  "core st = (occupancy st, depthStamp st, depth st)"

definition rest_of :: "wstate \<Rightarrow> bool \<times> nat \<times> int \<times> out_item list list \<times> (int \<times> int) list set" where
  "rest_of st = (shouldStop st, searchCount st, bestCoverage st, topSolutions st, seenSignatures st)"

lemma wstate_eqI: "core a = core b \<Longrightarrow> rest_of a = rest_of b \<Longrightarrow> a = (b::wstate)"
  by (cases a, cases b) (simp add: core_def rest_of_def)

definition markCells :: "int list \<Rightarrow> int list \<Rightarrow> int \<Rightarrow> int list" where
  "markCells a cs v = foldl (\<lambda>a c. ta_set a c v) a cs"

lemma length_ta_set [simp]: "length (ta_set a i v) = length a"
  by (simp add: ta_set_def)

lemma length_markCells [simp]: "length (markCells a cs v) = length a"
  unfolding markCells_def by (induction cs arbitrary: a) auto

lemma ta_get_ta_set: "ta_get (ta_set a i v) j = (if j = i \<and> 0 \<le> i \<and> i < int (length a) then Some v else ta_get a j)"
  by (auto simp: ta_get_def ta_set_def nth_list_update)

lemma markCells_Cons: "markCells a (c # cs) v = markCells (ta_set a c v) cs v"
  by (simp add: markCells_def)

lemma ta_get_markCells:
  "ta_get (markCells a cs v) j = (if j \<in> set cs \<and> 0 \<le> j \<and> j < int (length a) then Some v else ta_get a j)"
proof (induction cs arbitrary: a)
  case Nil
  show ?case by (simp add: markCells_def)
next
  case (Cons c cs)
  show ?case
    by (simp add: markCells_Cons Cons.IH ta_get_ta_set) (auto simp: ta_get_def)
qed

lemma applyCells_core:
  "core (applyCells cs v st) =
     (markCells (occupancy st) cs (to_int16 v), markCells (depthStamp st) cs (to_int32 (depth st)), depth st)"
  by (induction cs arbitrary: st) (simp_all add: core_def markCells_def)

lemma applyCells_rest: "rest_of (applyCells cs v st) = rest_of st"
  by (induction cs arbitrary: st) (simp_all add: rest_of_def)

lemma apply_core:
  "core (applyPlacementByIndex T p v st) =
     (markCells (occupancy st) (placementTargets T p) (to_int16 v),
      markCells (depthStamp st) (placementTargets T p) (to_int32 (depth st + 1)), depth st + 1)"
  by (simp add: applyPlacementByIndex_def applyCells_core)

lemma apply_fields:
  "occupancy (applyPlacementByIndex T p v st) =
     markCells (occupancy st) (placementTargets T p) (to_int16 v)"
  "depthStamp (applyPlacementByIndex T p v st) =
     markCells (depthStamp st) (placementTargets T p) (to_int32 (depth st + 1))"
  "depth (applyPlacementByIndex T p v st) = depth st + 1"
  using apply_core[of T p v st] by (simp_all add: core_def)

lemma apply_rest: "rest_of (applyPlacementByIndex T p v st) = rest_of st"
  by (simp add: applyPlacementByIndex_def applyCells_rest) (simp add: rest_of_def)

lemma undoCells_rest: "rest_of (undoCells cs st) = rest_of st"
  by (induction cs arbitrary: st) (simp_all add: rest_of_def)

lemma undo_rest: "rest_of (undoPlacementByIndex T p st) = rest_of st"
  using undoCells_rest[of "placementTargets T p" st]
  by (simp add: undoPlacementByIndex_def Let_def rest_of_def)

lemma undoCells_depth [simp]: "depth (undoCells cs st) = depth st"
  by (induction cs arbitrary: st) simp_all

lemma undoCells_lengths [simp]:
  "length (occupancy (undoCells cs st)) = length (occupancy st)"
  "length (depthStamp (undoCells cs st)) = length (depthStamp st)"
  by (induction cs arbitrary: st) simp_all

text \<open>What undo leaves in a cell.\<close>

lemma undoCells_get:
  assumes "length (depthStamp st) = length (occupancy st)"
  shows "ta_get (occupancy (undoCells cs st)) j =
           (if j \<in> set cs \<and> ta_get (depthStamp st) j = Some (depth st) then Some (- 1)
            else ta_get (occupancy st) j)
       \<and> ta_get (depthStamp (undoCells cs st)) j =
           (if j \<in> set cs \<and> ta_get (depthStamp st) j = Some (depth st) then Some 0
            else ta_get (depthStamp st) j)"
  using assms
proof (induction cs arbitrary: st)
  case Nil
  show ?case by simp
next
  case (Cons c cs)
  let ?st' = "(if ta_get (depthStamp st) c = Some (depth st)
        then st\<lparr> occupancy := ta_set (occupancy st) c (- 1),
                 depthStamp := ta_set (depthStamp st) c 0 \<rparr>
        else st)"
  have len: "length (depthStamp ?st') = length (occupancy ?st')"
    using Cons.prems by simp
  have d: "depth ?st' = depth st" by simp
  note IH = Cons.IH[OF len, unfolded d]
  show ?case
  proof (cases "ta_get (depthStamp st) c = Some (depth st)")
    case False
    then show ?thesis using IH by auto
  next
    case True
    then have inr: "0 \<le> c" "c < int (length (depthStamp st))"
      by (auto simp: ta_get_def split: if_splits)
    show ?thesis
      using IH True inr Cons.prems
      by (auto simp: ta_get_ta_set)
  qed
qed


lemma ta_get_eqI:
  assumes "length a = length b" "\<And>j. ta_get a j = ta_get b j"
  shows "a = b"
proof (rule nth_equalityI)
  show "length a = length b" by fact
next
  fix i assume i: "i < length a"
  have "ta_get a (int i) = ta_get b (int i)" by (rule assms(2))
  with i assms(1) show "a ! i = b ! i" by (simp add: ta_get_def)
qed

lemma ta_get_Some_range: "ta_get a j = Some v \<Longrightarrow> 0 \<le> j \<and> j < int (length a)"
  by (auto simp: ta_get_def split: if_splits)

lemma to_int32_id: "- 2147483648 \<le> d \<Longrightarrow> d < 2147483648 \<Longrightarrow> to_int32 d = d"
  by (simp add: to_int32_def)

lemma to_int16_piece:
  assumes "i < 65535"
  shows "to_int16 (int i) \<noteq> - 1"
proof (cases "i < 32768")
  case True
  then have "(int i + 32768) mod 65536 = int i + 32768" by simp
  then show ?thesis by (simp add: to_int16_def)
next
  case False
  then have "(int i + 32768) mod 65536 = int i + 32768 - 65536"
    using assms by (simp add: mod_pos_geq)
  with assms show ?thesis by (simp add: to_int16_def)
qed

definition stamp_inv :: "wstate \<Rightarrow> bool" where
  "stamp_inv st = (\<forall>j. ta_get (occupancy st) j = Some (- 1) \<longrightarrow> ta_get (depthStamp st) j = Some 0)"

lemma placementFree_iff:
  "placementFree T occ p = (\<forall>c \<in> set (placementTargets T p). ta_get occ c = Some (- 1))"
  by (simp add: placementFree_def list_all_iff)

text \<open>Undoing what was just applied gives back the arrays and the depth.\<close>

lemma undo_apply_core:
  assumes free: "placementFree T (occupancy st) p"
    and len: "length (depthStamp st) = length (occupancy st)"
    and inv: "stamp_inv st"
    and d: "0 \<le> depth st" "depth st < 2147483647"
    and X: "core X = core (applyPlacementByIndex T p v st)"
  shows "core (undoPlacementByIndex T p X) = core st"
proof -
  let ?cs = "placementTargets T p"
  let ?d = "depth st + 1"
  have i32: "to_int32 ?d = ?d" using d by (simp add: to_int32_id)
  have oX: "occupancy X = markCells (occupancy st) ?cs (to_int16 v)"
    and sX: "depthStamp X = markCells (depthStamp st) ?cs ?d"
    and dX: "depth X = ?d"
    using X by (simp_all add: core_def apply_fields i32)
  have lenX: "length (depthStamp X) = length (occupancy X)"
    by (simp add: oX sX len)
  note G = undoCells_get[OF lenX, of ?cs]
  have inr: "\<And>c. c \<in> set ?cs \<Longrightarrow> 0 \<le> c \<and> c < int (length (occupancy st))"
    using free by (auto simp: placementFree_iff dest: ta_get_Some_range)
  have occ: "\<And>j. ta_get (occupancy (undoCells ?cs X)) j = ta_get (occupancy st) j"
  proof -
    fix j
    show "ta_get (occupancy (undoCells ?cs X)) j = ta_get (occupancy st) j"
    proof (cases "j \<in> set ?cs")
      case True
      with inr[OF True] free len show ?thesis
        by (simp add: G oX sX dX ta_get_markCells placementFree_iff)
    next
      case False
      then show ?thesis by (simp add: G oX sX dX ta_get_markCells)
    qed
  qed
  have stamp: "\<And>j. ta_get (depthStamp (undoCells ?cs X)) j = ta_get (depthStamp st) j"
  proof -
    fix j
    show "ta_get (depthStamp (undoCells ?cs X)) j = ta_get (depthStamp st) j"
    proof (cases "j \<in> set ?cs")
      case True
      with inr[OF True] free len inv show ?thesis
        by (simp add: G oX sX dX ta_get_markCells placementFree_iff stamp_inv_def)
    next
      case False
      then show ?thesis by (simp add: G oX sX dX ta_get_markCells)
    qed
  qed
  have "occupancy (undoCells ?cs X) = occupancy st"
    by (rule ta_get_eqI) (simp_all add: oX occ)
  moreover have "depthStamp (undoCells ?cs X) = depthStamp st"
    by (rule ta_get_eqI) (simp_all add: sX stamp)
  ultimately show ?thesis
    by (simp add: undoPlacementByIndex_def Let_def core_def dX)
qed

text \<open>
  C9.  If every target cell of a placement reads -1, then applying the placement and
  undoing it straight away leaves each of its target cells at -1, gives the depth
  counter its old value, and never touches the occupancy entry of a cell that is not a
  target: neither after the apply nor after the undo.  In all, the occupancy array is
  the one before.  (The two arrays have the board's length, and the depth counter is a
  number an \<open>Int32Array\<close> holds exactly, as it is whenever \<open>solve\<close> runs.)
\<close>

theorem apply_then_undo_restores:
  assumes "placementFree T (occupancy st) p"
    and "length (depthStamp st) = length (occupancy st)"
    and "0 \<le> depth st" and "depth st < 2147483647"
  shows "let st1 = applyPlacementByIndex T p pieceIdx st;
             st2 = undoPlacementByIndex T p st1
         in (\<forall>c \<in> set (placementTargets T p). ta_get (occupancy st2) c = Some (- 1))
          \<and> depth st2 = depth st
          \<and> (\<forall>c. c \<notin> set (placementTargets T p) \<longrightarrow>
                 ta_get (occupancy st1) c = ta_get (occupancy st) c
               \<and> ta_get (occupancy st2) c = ta_get (occupancy st) c)
          \<and> occupancy st2 = occupancy st"
proof -
  let ?cs = "placementTargets T p"
  let ?st1 = "applyPlacementByIndex T p pieceIdx st"
  let ?st2 = "undoPlacementByIndex T p ?st1"
  let ?d = "depth st + 1"
  have i32: "to_int32 ?d = ?d" using assms by (simp add: to_int32_id)
  have o1: "occupancy ?st1 = markCells (occupancy st) ?cs (to_int16 pieceIdx)"
    and s1: "depthStamp ?st1 = markCells (depthStamp st) ?cs ?d"
    and d1: "depth ?st1 = ?d"
    by (simp_all add: apply_fields i32)
  have len1: "length (depthStamp ?st1) = length (occupancy ?st1)"
    by (simp add: o1 s1 assms(2))
  note G = undoCells_get[OF len1, of ?cs]
  have inr: "\<And>c. c \<in> set ?cs \<Longrightarrow> 0 \<le> c \<and> c < int (length (occupancy st))"
    using assms(1) by (auto simp: placementFree_iff dest: ta_get_Some_range)
  have o2: "occupancy ?st2 = occupancy (undoCells ?cs ?st1)"
    and d2: "depth ?st2 = depth st"
    by (simp_all add: undoPlacementByIndex_def Let_def d1)
  have occ: "\<And>j. ta_get (occupancy ?st2) j = ta_get (occupancy st) j"
  proof -
    fix j
    show "ta_get (occupancy ?st2) j = ta_get (occupancy st) j"
    proof (cases "j \<in> set ?cs")
      case True
      with inr[OF True] assms(1,2) show ?thesis
        by (simp add: o2 G o1 s1 d1 ta_get_markCells placementFree_iff)
    next
      case False
      then show ?thesis by (simp add: o2 G o1 s1 d1 ta_get_markCells)
    qed
  qed
  have a: "\<forall>c \<in> set ?cs. ta_get (occupancy ?st2) c = Some (- 1)"
    using assms(1) by (simp add: occ placementFree_iff)
  have b: "\<forall>c. c \<notin> set ?cs \<longrightarrow> ta_get (occupancy ?st1) c = ta_get (occupancy st) c
               \<and> ta_get (occupancy ?st2) c = ta_get (occupancy st) c"
    by (simp add: occ o1 ta_get_markCells)
  have c: "occupancy ?st2 = occupancy st"
    by (rule ta_get_eqI) (simp_all add: o2 o1 occ[unfolded o2])
  from a b c d2 show ?thesis by (simp add: Let_def)
qed

section \<open>The backtracking procedure leaves the board as it found it\<close>

text \<open>The worker's variables right after the recording step of a node.\<close>

definition nodeState :: "worker_data \<Rightarrow> sol_item list \<Rightarrow> int \<Rightarrow> wstate \<Rightarrow> wstate" where
  "nodeState T cur cov st0 = recordSolution T cur cov (st0\<lparr> searchCount := searchCount st0 + 1 \<rparr>)"

lemma recordSolution_core [simp]: "core (recordSolution T cur cov st) = core st"
  by (simp add: recordSolution_def core_def Let_def)

lemma recordSolution_stop [simp]: "shouldStop (recordSolution T cur cov st) = shouldStop st"
  by (simp add: recordSolution_def Let_def)

lemma nodeState_core [simp]: "core (nodeState T cur cov st) = core st"
  by (simp add: nodeState_def) (simp add: core_def)

lemma nodeState_stop [simp]: "shouldStop (nodeState T cur cov st) = shouldStop st"
  by (simp add: nodeState_def)

lemma core_fields:
  "core a = core b \<Longrightarrow> occupancy a = occupancy b"
  "core a = core b \<Longrightarrow> depthStamp a = depthStamp b"
  "core a = core b \<Longrightarrow> depth a = depth b"
  by (simp_all add: core_def)

lemma rest_stop: "rest_of a = rest_of b \<Longrightarrow> shouldStop a = shouldStop b"
  by (simp add: rest_of_def)

lemma apply_stop [simp]: "shouldStop (applyPlacementByIndex T p v st) = shouldStop st"
  using apply_rest[of T p v st] by (rule rest_stop)

lemma undo_stop [simp]: "shouldStop (undoPlacementByIndex T p st) = shouldStop st"
  using undo_rest[of T p st] by (rule rest_stop)

text \<open>The equations of the two functions, with the node's state named.\<close>

lemma backtrack_unfold:
  "backtrack T rem rs cur cov st0 =
     (if shouldStop st0 then (True, st0)
      else if boardSize T \<le> cov then (True, nodeState T cur cov st0)
      else if cov + rs \<le> bestCoverage (nodeState T cur cov st0) then (False, nodeState T cur cov st0)
      else if rem = [] then (False, nodeState T cur cov st0)
      else (case selectPiece T (occupancy (nodeState T cur cov st0)) rem of
              None \<Rightarrow> (False, nodeState T cur cov st0)
            | Some ri \<Rightarrow>
                if validPlacements T (occupancy (nodeState T cur cov st0)) (rem ! ri) = []
                then (False, nodeState T cur cov st0)
                else tryPlacements T rem ri rs cur cov
                       (sortByAdj (validPlacements T (occupancy (nodeState T cur cov st0)) (rem ! ri)))
                       (nodeState T cur cov st0)))"
  by (simp add: backtrack.simps[of T rem rs cur cov st0] nodeState_def Let_def split: option.split)

definition childCall :: "worker_data \<Rightarrow> nat list \<Rightarrow> nat \<Rightarrow> int \<Rightarrow> sol_item list \<Rightarrow> int \<Rightarrow> int
    \<Rightarrow> wstate \<Rightarrow> bool \<times> wstate" where
  "childCall T rem ri rs cur cov p st =
     backtrack T (dropAt ri rem) (rs - pieceSize T (rem ! ri)) (cur @ [mkItem T p])
       (cov + metaField T p 5) (applyPlacementByIndex T p (int (rem ! ri)) st)"

lemma tryPlacements_unfold:
  "tryPlacements T rem ri rs cur cov (v # vs) st =
     (if shouldStop st then (True, st)
      else if fst (childCall T rem ri rs cur cov (fst v) st)
           then (True, undoPlacementByIndex T (fst v) (snd (childCall T rem ri rs cur cov (fst v) st)))
           else tryPlacements T rem ri rs cur cov vs
                  (undoPlacementByIndex T (fst v) (snd (childCall T rem ri rs cur cov (fst v) st))))"
  by (simp add: childCall_def Let_def split: prod.splits)

declare tryPlacements.simps(2) [simp del]

text \<open>A tidier induction rule for the pair of functions.\<close>

lemma backtrack_induct [case_names node nil cons]:
  assumes node: "\<And>T rem rs cur cov st0.
       (\<And>ri. \<not> shouldStop st0 \<Longrightarrow> \<not> boardSize T \<le> cov
          \<Longrightarrow> \<not> cov + rs \<le> bestCoverage (nodeState T cur cov st0) \<Longrightarrow> rem \<noteq> []
          \<Longrightarrow> selectPiece T (occupancy (nodeState T cur cov st0)) rem = Some ri
          \<Longrightarrow> validPlacements T (occupancy (nodeState T cur cov st0)) (rem ! ri) \<noteq> []
          \<Longrightarrow> Q T rem ri rs cur cov
                (sortByAdj (validPlacements T (occupancy (nodeState T cur cov st0)) (rem ! ri)))
                (nodeState T cur cov st0))
       \<Longrightarrow> P T rem rs cur cov st0"
    and nil: "\<And>T rem ri rs cur cov st. Q T rem ri rs cur cov [] st"
    and cons: "\<And>T rem ri rs cur cov v vs st.
       (\<not> shouldStop st \<Longrightarrow>
          P T (dropAt ri rem) (rs - pieceSize T (rem ! ri)) (cur @ [mkItem T (fst v)])
            (cov + metaField T (fst v) 5) (applyPlacementByIndex T (fst v) (int (rem ! ri)) st))
       \<Longrightarrow> (\<not> shouldStop st \<Longrightarrow> \<not> fst (childCall T rem ri rs cur cov (fst v) st)
          \<Longrightarrow> Q T rem ri rs cur cov vs
                (undoPlacementByIndex T (fst v) (snd (childCall T rem ri rs cur cov (fst v) st))))
       \<Longrightarrow> Q T rem ri rs cur cov (v # vs) st"
  shows "P T rem rs cur cov st0" and "Q T rem ri rs cur cov vs st"
proof (induction T rem rs cur cov st0 and T rem ri rs cur cov vs st
    rule: backtrack_tryPlacements.induct)
  case (1 T remainingPieces remainingSum currentSolution coverage st0)
  show ?case
    by (rule node) (rule 1, simp_all add: nodeState_def)
next
  case (2 T remainingPieces bestRi remainingSum currentSolution coverage st)
  show ?case by (rule nil)
next
  case (3 T remainingPieces bestRi remainingSum currentSolution coverage v vs st)
  show ?case
  proof (rule cons)
    assume "\<not> shouldStop st"
    then show "P T (dropAt bestRi remainingPieces)
        (remainingSum - pieceSize T (remainingPieces ! bestRi))
        (currentSolution @ [mkItem T (fst v)]) (coverage + metaField T (fst v) 5)
        (applyPlacementByIndex T (fst v) (int (remainingPieces ! bestRi)) st)"
      by (rule 3(1)) simp_all
  next
    assume a: "\<not> shouldStop st"
      "\<not> fst (childCall T remainingPieces bestRi remainingSum currentSolution coverage (fst v) st)"
    show "Q T remainingPieces bestRi remainingSum currentSolution coverage vs
        (undoPlacementByIndex T (fst v)
          (snd (childCall T remainingPieces bestRi remainingSum currentSolution coverage (fst v) st)))"
      using a
      by (intro 3(2)[OF a(1) refl refl refl refl refl refl _ refl])
         (simp_all add: childCall_def prod_eq_iff)
  qed
qed


lemma stop_preserved:
  shows "shouldStop (snd (backtrack T rem rs cur cov st0)) = shouldStop st0"
    and "shouldStop (snd (tryPlacements T rem ri rs cur cov vs st)) = shouldStop st"
proof (induction T rem rs cur cov st0 and T rem ri rs cur cov vs st rule: backtrack_induct)
  case (node T rem rs cur cov st0)
  then show ?case
    by (simp add: backtrack_unfold split: option.split)
next
  case (nil T rem ri rs cur cov st)
  show ?case by simp
next
  case (cons T rem ri rs cur cov v vs st)
  show ?case
  proof (cases "shouldStop st")
    case True
    then show ?thesis by (simp add: tryPlacements_unfold)
  next
    case False
    have c: "shouldStop (snd (childCall T rem ri rs cur cov (fst v) st)) = shouldStop st"
      using cons(1)[OF False] by (simp add: childCall_def)
    show ?thesis
    proof (cases "fst (childCall T rem ri rs cur cov (fst v) st)")
      case True
      with False c show ?thesis by (simp add: tryPlacements_unfold)
    next
      case f: False
      from cons(2)[OF False f] False f c show ?thesis
        by (simp add: tryPlacements_unfold)
    qed
  qed
qed

text \<open>The conditions under which a call leaves the arrays and the depth as it found them.\<close>

definition frame_ok :: "nat list \<Rightarrow> wstate \<Rightarrow> bool" where
  "frame_ok rem st =
     (length (depthStamp st) = length (occupancy st) \<and> stamp_inv st \<and> 0 \<le> depth st
      \<and> depth st + int (length rem) < 2147483647 \<and> (\<forall>i \<in> set rem. i < 65535))"

lemma frame_ok_core: "core a = core b \<Longrightarrow> frame_ok rem a = frame_ok rem b"
  by (simp add: frame_ok_def stamp_inv_def core_def)

lemma set_dropAt: "set (dropAt i xs) \<subseteq> set xs"
  by (auto simp: dropAt_def dest: in_set_takeD in_set_dropD)

lemma length_dropAt_eq: "i < length xs \<Longrightarrow> length (dropAt i xs) = length xs - 1"
  by (simp add: dropAt_def)

lemma frame_ok_apply:
  assumes ok: "frame_ok rem st" and ri: "ri < length rem"
    and free: "placementFree T (occupancy st) p"
  shows "frame_ok (dropAt ri rem) (applyPlacementByIndex T p (int (rem ! ri)) st)"
proof -
  let ?st1 = "applyPlacementByIndex T p (int (rem ! ri)) st"
  have pc: "to_int16 (int (rem ! ri)) \<noteq> - 1"
    using ok ri by (intro to_int16_piece) (simp add: frame_ok_def)
  have d: "0 \<le> depth st" "depth st < 2147483647"
    using ok by (simp_all add: frame_ok_def)
  have i32: "to_int32 (depth st + 1) = depth st + 1" using d by (simp add: to_int32_id)
  have len: "length (depthStamp st) = length (occupancy st)" using ok by (simp add: frame_ok_def)
  have "stamp_inv ?st1"
    unfolding stamp_inv_def
  proof (intro allI impI)
    fix j assume a: "ta_get (occupancy ?st1) j = Some (- 1)"
    then have "j \<notin> set (placementTargets T p) \<or> \<not> (0 \<le> j \<and> j < int (length (occupancy st)))"
      using pc by (auto simp: apply_fields ta_get_markCells split: if_splits)
    then have "ta_get (occupancy ?st1) j = ta_get (occupancy st) j"
      and "ta_get (depthStamp ?st1) j = ta_get (depthStamp st) j"
      using len by (auto simp: apply_fields ta_get_markCells)
    with a ok show "ta_get (depthStamp ?st1) j = Some 0"
      by (simp add: frame_ok_def stamp_inv_def)
  qed
  moreover have "depth ?st1 + int (length (dropAt ri rem)) < 2147483647"
    using ok ri by (simp add: apply_fields length_dropAt_eq frame_ok_def)
  moreover have "\<forall>i \<in> set (dropAt ri rem). i < 65535"
    using ok set_dropAt[of ri rem] by (auto simp: frame_ok_def)
  ultimately show ?thesis
    using d len by (simp add: frame_ok_def apply_fields)
qed

lemma set_sortByAdj [simp]: "set (sortByAdj vs) = set vs"
  by (simp add: sortByAdj_def)

lemma validPlacements_free:
  "v \<in> set (validPlacements T occ i) \<Longrightarrow> placementFree T occ (fst v)"
  by (auto simp: validPlacements_def)

lemma restore:
  shows "frame_ok rem st0 \<Longrightarrow> core (snd (backtrack T rem rs cur cov st0)) = core st0"
    and "frame_ok rem st \<Longrightarrow> ri < length rem
           \<Longrightarrow> \<forall>v \<in> set vs. placementFree T (occupancy st) (fst v)
           \<Longrightarrow> core (snd (tryPlacements T rem ri rs cur cov vs st)) = core st"
proof (induction T rem rs cur cov st0 and T rem ri rs cur cov vs st rule: backtrack_induct)
  case (node T rem rs cur cov st0)
  let ?x = "nodeState T cur cov st0"
  have fx: "frame_ok rem ?x" using node.prems frame_ok_core[of ?x st0 rem] by simp
  show ?case
  proof (cases "shouldStop st0 \<or> boardSize T \<le> cov \<or> cov + rs \<le> bestCoverage ?x \<or> rem = []")
    case True
    then show ?thesis by (auto simp: backtrack_unfold)
  next
    case False
    show ?thesis
    proof (cases "selectPiece T (occupancy ?x) rem")
      case None
      with False show ?thesis by (simp add: backtrack_unfold)
    next
      case (Some ri)
      show ?thesis
      proof (cases "validPlacements T (occupancy ?x) (rem ! ri) = []")
        case True
        with False Some show ?thesis by (simp add: backtrack_unfold)
      next
        case nonempty: False
        have "core (snd (tryPlacements T rem ri rs cur cov
                (sortByAdj (validPlacements T (occupancy ?x) (rem ! ri))) ?x)) = core ?x"
          using False Some nonempty fx
          by (intro node.IH) (auto dest: selectPiece_bound validPlacements_free)
        with False Some nonempty show ?thesis by (simp add: backtrack_unfold)
      qed
    qed
  qed
next
  case (nil T rem ri rs cur cov st)
  show ?case by simp
next
  case (cons T rem ri rs cur cov v vs st)
  show ?case
  proof (cases "shouldStop st")
    case True
    then show ?thesis by (simp add: tryPlacements_unfold)
  next
    case False
    let ?p = "fst v"
    let ?st1 = "applyPlacementByIndex T ?p (int (rem ! ri)) st"
    let ?c = "childCall T rem ri rs cur cov ?p st"
    let ?st3 = "undoPlacementByIndex T ?p (snd ?c)"
    have free: "placementFree T (occupancy st) ?p" using cons.prems(3) by simp
    have f1: "frame_ok (dropAt ri rem) ?st1"
      by (rule frame_ok_apply[OF cons.prems(1,2) free])
    have c: "core (snd ?c) = core ?st1"
      using cons.IH(1)[OF False f1] by (simp add: childCall_def)
    have c3: "core ?st3 = core st"
      using cons.prems(1) by (intro undo_apply_core[OF free _ _ _ _ c]) (simp_all add: frame_ok_def)
    show ?thesis
    proof (cases "fst ?c")
      case True
      with False c3 show ?thesis by (simp add: tryPlacements_unfold)
    next
      case f: False
      have "core (snd (tryPlacements T rem ri rs cur cov vs ?st3)) = core ?st3"
        using cons.prems c3 frame_ok_core[OF c3, of rem]
        by (intro cons.IH(2)[OF False f]) (simp_all add: core_fields(1)[OF c3])
      with False f c3 show ?thesis by (simp add: tryPlacements_unfold)
    qed
  qed
qed

section \<open>The tables as exact integers\<close>

text \<open>
  For the proofs: the tables, the work packages and a run as they are when no number is
  changed by its storage in an \<open>Int32Array\<close>.  They are shown below to be the tables, the
  work packages and the run of the program whenever every number written fits 32 bits.
\<close>

fun exactMeta :: "placement list \<Rightarrow> nat \<Rightarrow> int list" where
  "exactMeta [] targetCursor = []"
| "exactMeta (pl # pls) targetCursor =
     [int (pl_pieceIdx pl), pl_pieceId pl, int (pl_anchorIdx pl), int (pl_rot pl),
      int targetCursor, int (length (pl_targets pl))]
     @ exactMeta pls (targetCursor + length (pl_targets pl))"

fun exactStarts :: "placement list list \<Rightarrow> nat \<Rightarrow> int list" where
  "exactStarts [] placementIdx = []"
| "exactStarts (l # ls) placementIdx = int placementIdx # exactStarts ls (placementIdx + length l)"

definition exactData :: "solver_input \<Rightarrow> nat \<Rightarrow> int list \<Rightarrow> worker_data" where
  "exactData inp i assigned =
     \<lparr> pieces = map (\<lambda>p. \<lparr> pid = piece_id p, psize = int (length (piece_cells p)) \<rparr>)
                  (inPieces inp),
       boardSize = int (max 1 (boardW inp) * max 1 (boardH inp)),
       pieceOrder = mainPieceOrder inp,
       workerId = i,
       boardCells = boardGrid inp,
       neighbors = neighborIndices (boardGrid inp),
       placementsMeta = exactMeta (concat (piecePlacements inp)) 0,
       placementsTargets = map int (concat (map pl_targets (concat (piecePlacements inp)))),
       piecePlacementStart = exactStarts (piecePlacements inp) 0,
       piecePlacementCount = map (\<lambda>l. int (length l)) (piecePlacements inp),
       assignedPlacementIndices = assigned,
       initialBestCoverage = 0 \<rparr>"

fun exactSpawn :: "nat \<Rightarrow> nat \<Rightarrow> nat \<Rightarrow> nat \<Rightarrow> nat \<Rightarrow> nat \<Rightarrow> (nat \<times> int list) list" where
  "exactSpawn 0 i nW perWorker firstStart firstCount = []"
| "exactSpawn (Suc fuel) i nW perWorker firstStart firstCount =
     (if i < nW \<and> i * perWorker < firstCount then
        (let startIdx = i * perWorker;
             endIdx = min (startIdx + perWorker) firstCount
         in (i, map (\<lambda>k. int (firstStart + k)) [startIdx ..< endIdx])
            # exactSpawn fuel (i + 1) nW perWorker firstStart firstCount)
      else [])"

definition exactPackages :: "solver_input \<Rightarrow> worker_data list" where
  "exactPackages inp =
     (case mainPieceOrder inp of
        [] \<Rightarrow> []
      | firstPieceIdx # _ \<Rightarrow>
          (let firstPieceStart = nat (exactStarts (piecePlacements inp) 0 ! firstPieceIdx);
               firstPieceCount = length (piecePlacements inp ! firstPieceIdx);
               placementsPerWorker = (firstPieceCount + numWorkers inp - 1) div numWorkers inp
           in map (\<lambda>(i, assigned). exactData inp i assigned)
                (exactSpawn (numWorkers inp) 0 (numWorkers inp) placementsPerWorker
                   firstPieceStart firstPieceCount)))"

definition exactRun :: "solver_input \<Rightarrow> nat list \<Rightarrow> main_state" where
  "exactRun inp arrival =
     (let ws = exactPackages inp
      in foldl (onComplete inp (length ws)) initialMain
           (map (\<lambda>i. completeMessage (ws ! i)) arrival))"

section \<open>The packed tables hold the placements that were enumerated\<close>

subsection \<open>The board and its index map\<close>

lemma length_generateRect: "length (generateRect w h) = w * h"
  by (induction w) (simp_all add: generateRect_def length_concat comp_def sum_list_triv)

lemma Hex_inject [simp]: "Hex a b = Hex c d \<longleftrightarrow> a = c \<and> b = d"
  by (simp add: Hex_def)

lemma concat_map_Nil: "concat (map (\<lambda>a. []) xs) = []"
  by (induction xs) simp_all

lemma distinct_generateRect: "distinct (generateRect w h)"
proof (cases "h = 0")
  case True
  show ?thesis unfolding generateRect_def True by (simp add: concat_map_Nil)
next
  case False
  then have z: "0 \<in> set [0..<h]" by simp
  let ?row = "\<lambda>a. map (\<lambda>b. Hex (int a) (int b)) [0..<h]"
  have inj: "\<And>x y. ?row x = ?row y \<Longrightarrow> x = y"
  proof -
    fix x y assume e: "?row x = ?row y"
    then have "\<forall>b \<in> set [0..<h]. Hex (int x) (int b) = Hex (int y) (int b)"
      by (simp only: map_eq_conv)
    with z have "Hex (int x) (int 0) = Hex (int y) (int 0)" by blast
    then show "x = y" by simp
  qed
  show ?thesis
    unfolding generateRect_def
  proof (rule distinct_concat)
    show "distinct (map ?row [0..<w])"
      unfolding distinct_map using inj by (simp add: inj_on_def)
  next
    fix ys assume "ys \<in> set (map ?row [0..<w])"
    then obtain a where "ys = ?row a" by auto
    then show "distinct ys" by (simp add: distinct_map inj_on_def)
  next
    fix ys zs
    assume "ys \<in> set (map ?row [0..<w])" "zs \<in> set (map ?row [0..<w])" "ys \<noteq> zs"
    then obtain a b where "ys = ?row a" "zs = ?row b" "a \<noteq> b" by auto
    then show "set ys \<inter> set zs = {}" by auto
  qed
qed

lemma distinct_boardGrid: "distinct (boardGrid inp)"
  by (simp add: boardGrid_def distinct_generateRect)

lemma length_boardGrid: "length (boardGrid inp) = max 1 (boardW inp) * max 1 (boardH inp)"
  by (simp add: boardGrid_def length_generateRect)

text \<open>The map built by the loop gives each cell of a duplicate-free list its position.\<close>

definition setCell :: "nat \<times> hex \<Rightarrow> (hex \<rightharpoonup> nat) \<Rightarrow> (hex \<rightharpoonup> nat)" where
  "setCell p m = m(snd p \<mapsto> fst p)"

lemma cellIndexMap_setCell: "cellIndexMap bcells = fold setCell (enumerate 0 bcells) Map.empty"
proof -
  have "(\<lambda>(idx, h) m. m(h \<mapsto> idx)) = setCell"
    by (intro ext) (simp add: setCell_def split: prod.split)
  then show ?thesis by (simp add: cellIndexMap_def)
qed

lemma fold_setCell_notin:
  "h \<notin> set xs \<Longrightarrow> fold setCell (enumerate n xs) m h = m h"
  by (induction xs arbitrary: n m) (simp_all add: setCell_def)

lemma fold_setCell_nth:
  "distinct xs \<Longrightarrow> i < length xs \<Longrightarrow> fold setCell (enumerate n xs) m (xs ! i) = Some (n + i)"
proof (induction xs arbitrary: n m i)
  case Nil
  then show ?case by simp
next
  case (Cons x xs)
  show ?case
  proof (cases i)
    case 0
    with Cons.prems show ?thesis
      by (simp add: fold_setCell_notin) (simp add: setCell_def)
  next
    case (Suc j)
    with Cons.prems Cons.IH[of j "Suc n" "setCell (n, x) m"] show ?thesis by simp
  qed
qed

lemma cellIndexMap_nth:
  "distinct bcells \<Longrightarrow> i < length bcells \<Longrightarrow> cellIndexMap bcells (bcells ! i) = Some i"
  using fold_setCell_nth[of bcells i 0 Map.empty] by (simp add: cellIndexMap_setCell)

lemma cellIndexMap_None_iff:
  "distinct bcells \<Longrightarrow> cellIndexMap bcells h = None \<longleftrightarrow> h \<notin> set bcells"
proof
  assume d: "distinct bcells" and n: "cellIndexMap bcells h = None"
  show "h \<notin> set bcells"
  proof
    assume "h \<in> set bcells"
    then obtain i where "i < length bcells" "bcells ! i = h" by (auto simp: in_set_conv_nth)
    with cellIndexMap_nth[OF d this(1)] n show False by simp
  qed
next
  assume "h \<notin> set bcells"
  then show "cellIndexMap bcells h = None"
    by (simp add: cellIndexMap_setCell fold_setCell_notin)
qed

lemma cellIndexMap_Some_iff:
  assumes "distinct bcells"
  shows "cellIndexMap bcells h = Some i \<longleftrightarrow> i < length bcells \<and> bcells ! i = h"
proof
  assume s: "cellIndexMap bcells h = Some i"
  then have "h \<in> set bcells" using cellIndexMap_None_iff[OF assms, of h] by auto
  then obtain j where j: "j < length bcells" "bcells ! j = h" by (auto simp: in_set_conv_nth)
  with cellIndexMap_nth[OF assms j(1)] s have "i = j" by simp
  with j show "i < length bcells \<and> bcells ! i = h" by simp
next
  assume "i < length bcells \<and> bcells ! i = h"
  then show "cellIndexMap bcells h = Some i" using cellIndexMap_nth[OF assms, of i] by auto
qed


subsection \<open>Enumerated placements\<close>

lemma placeTargets_Some:
  "placeTargets bcells a rt cells = Some ts \<Longrightarrow>
     list_all2 (\<lambda>off t. cellIndexMap bcells (addHex a (rotateHex off (int rt))) = Some t) cells ts"
proof (induction cells arbitrary: ts)
  case Nil
  then show ?case by simp
next
  case (Cons off offs)
  then show ?case
    by (auto split: option.splits)
qed

text \<open>What every enumerated placement of piece \<open>i\<close> is.\<close>

definition placement_of :: "solver_input \<Rightarrow> nat \<Rightarrow> placement \<Rightarrow> bool" where
  "placement_of inp i pl =
     (i < length (inPieces inp) \<and> pl_pieceIdx pl = i
      \<and> pl_pieceId pl = piece_id (inPieces inp ! i)
      \<and> pl_rot pl < rotLimit inp \<and> pl_anchorIdx pl < length (boardGrid inp)
      \<and> placeTargets (boardGrid inp) (boardGrid inp ! pl_anchorIdx pl) (pl_rot pl)
            (piece_cells (inPieces inp ! i)) = Some (pl_targets pl))"

lemma piecePlacementsOf_member:
  assumes "pl \<in> set (piecePlacementsOf inp i (inPieces inp ! i))" and "i < length (inPieces inp)"
  shows "placement_of inp i pl"
proof -
  from assms(1) obtain rt a ts where rt: "rt < rotLimit inp" and a: "a \<in> set (boardGrid inp)"
    and ts: "placeTargets (boardGrid inp) a rt (piece_cells (inPieces inp ! i)) = Some ts"
    and pl: "pl = \<lparr> pl_pieceIdx = i, pl_pieceId = piece_id (inPieces inp ! i),
                pl_anchorIdx = (case cellIndexMap (boardGrid inp) a of Some k \<Rightarrow> k | None \<Rightarrow> 0),
                pl_rot = rt, pl_targets = ts \<rparr>"
    by (auto simp: piecePlacementsOf_def split: option.splits)
  from a obtain k where k: "k < length (boardGrid inp)" "boardGrid inp ! k = a"
    by (auto simp: in_set_conv_nth)
  then have "cellIndexMap (boardGrid inp) a = Some k"
    using cellIndexMap_nth[OF distinct_boardGrid, of k inp] by simp
  with rt ts pl k assms(2) show ?thesis by (simp add: placement_of_def)
qed

lemma length_piecePlacements [simp]: "length (piecePlacements inp) = length (inPieces inp)"
  by (simp add: piecePlacements_def)

lemma nth_piecePlacements:
  "i < length (inPieces inp) \<Longrightarrow> piecePlacements inp ! i = piecePlacementsOf inp i (inPieces inp ! i)"
  by (simp add: piecePlacements_def nth_enumerate_eq)

lemma piecePlacements_member:
  "i < length (inPieces inp) \<Longrightarrow> pl \<in> set (piecePlacements inp ! i) \<Longrightarrow> placement_of inp i pl"
  by (simp add: nth_piecePlacements piecePlacementsOf_member)

subsection \<open>Reading a concatenation by offset\<close>

lemma concat_take_Suc:
  "i < length xss \<Longrightarrow> concat (take (Suc i) xss) = concat (take i xss) @ xss ! i"
  by (simp add: take_Suc_conv_app_nth)

lemma concat_split_at:
  assumes "i < length xss"
  shows "concat xss = concat (take i xss) @ xss ! i @ concat (drop (Suc i) xss)"
proof -
  have "xss = take i xss @ xss ! i # drop (Suc i) xss"
    using assms by (simp add: id_take_nth_drop)
  then have "concat xss = concat (take i xss @ xss ! i # drop (Suc i) xss)" by simp
  then show ?thesis by simp
qed

lemma concat_nth_offset:
  assumes "i < length xss" "k < length (xss ! i)"
  shows "concat xss ! (length (concat (take i xss)) + k) = xss ! i ! k"
    and "length (concat (take i xss)) + k < length (concat xss)"
proof -
  note e = concat_split_at[OF assms(1)]
  show "concat xss ! (length (concat (take i xss)) + k) = xss ! i ! k"
    by (subst e) (simp add: nth_append assms(2))
  have "length (concat xss)
          = length (concat (take i xss)) + length (xss ! i) + length (concat (drop (Suc i) xss))"
    using arg_cong[OF e, of length] by simp
  then show "length (concat (take i xss)) + k < length (concat xss)"
    using assms(2) by simp
qed

lemma concat_slice:
  assumes "i < length xss"
  shows "take (length (xss ! i)) (drop (length (concat (take i xss))) (concat xss)) = xss ! i"
  by (subst concat_split_at[OF assms]) simp

subsection \<open>The packed arrays\<close>

definition metaRow :: "placement \<Rightarrow> nat \<Rightarrow> int list" where
  "metaRow pl targetCursor =
     [int (pl_pieceIdx pl), pl_pieceId pl, int (pl_anchorIdx pl), int (pl_rot pl),
      int targetCursor, int (length (pl_targets pl))]"

lemma length_metaRow [simp]: "length (metaRow pl c) = 6"
  by (simp add: metaRow_def)

lemma exactMeta_Cons:
  "exactMeta (pl # pls) c = metaRow pl c @ exactMeta pls (c + length (pl_targets pl))"
  by (simp add: metaRow_def)

lemma length_exactMeta: "length (exactMeta pls c) = 6 * length pls"
  by (induction pls arbitrary: c) simp_all

lemma exactMeta_nth:
  "j < length pls \<Longrightarrow> k < 6 \<Longrightarrow>
     exactMeta pls c ! (6 * j + k)
       = metaRow (pls ! j) (c + length (concat (map pl_targets (take j pls)))) ! k"
proof (induction pls arbitrary: c j)
  case Nil
  then show ?case by simp
next
  case (Cons pl pls)
  show ?case
  proof (cases j)
    case 0
    with Cons.prems show ?thesis
      by (simp only: exactMeta_Cons) (simp add: nth_append)
  next
    case (Suc j')
    have "6 * j + k = 6 + (6 * j' + k)" using Suc by simp
    then have "exactMeta (pl # pls) c ! (6 * j + k)
                 = exactMeta pls (c + length (pl_targets pl)) ! (6 * j' + k)"
      by (simp only: exactMeta_Cons) (simp add: nth_append)
    with Cons.IH[of j' "c + length (pl_targets pl)"] Cons.prems Suc show ?thesis
      by (simp add: add.assoc)
  qed
qed

lemma length_exactStarts [simp]: "length (exactStarts ls c) = length ls"
  by (induction ls arbitrary: c) simp_all

lemma exactStarts_nth:
  "i < length ls \<Longrightarrow> exactStarts ls c ! i = int (c + length (concat (take i ls)))"
proof (induction ls arbitrary: c i)
  case Nil
  then show ?case by simp
next
  case (Cons l ls)
  then show ?case by (cases i) (simp_all add: add.assoc)
qed


lemma upto_as_upt: "[int c .. int c + int n - 1] = map int [c ..< c + n]"
proof (induction n arbitrary: c)
  case 0
  show ?case by simp
next
  case (Suc n)
  have "[int c .. int c + int (Suc n) - 1] = int c # [int (Suc c) .. int (Suc c) + int n - 1]"
    by (subst upto_rec1) (simp_all add: algebra_simps)
  also have "\<dots> = int c # map int [Suc c ..< Suc c + n]" by (simp only: Suc.IH)
  also have "\<dots> = map int [c ..< c + Suc n]" by (simp add: upt_conv_Cons)
  finally show ?case .
qed

lemma map_nth_slice: "c + n \<le> length xs \<Longrightarrow> map ((!) xs) [c ..< c + n] = take n (drop c xs)"
  by (rule nth_equalityI) (simp_all add: add.commute)

text \<open>The tables of a worker, read at placement number \<open>j\<close> of the concatenated list.\<close>

lemma tables_fields [simp]:
  "placementsMeta (exactData inp w a) = exactMeta (concat (piecePlacements inp)) 0"
  "placementsTargets (exactData inp w a)
     = map int (concat (map pl_targets (concat (piecePlacements inp))))"
  "piecePlacementStart (exactData inp w a) = exactStarts (piecePlacements inp) 0"
  "piecePlacementCount (exactData inp w a) = map (\<lambda>l. int (length l)) (piecePlacements inp)"
  "pieceOrder (exactData inp w a) = mainPieceOrder inp"
  "boardCells (exactData inp w a) = boardGrid inp"
  "boardSize (exactData inp w a) = int (max 1 (boardW inp) * max 1 (boardH inp))"
  "pieces (exactData inp w a)
     = map (\<lambda>p. \<lparr> pid = piece_id p, psize = int (length (piece_cells p)) \<rparr>) (inPieces inp)"
  "assignedPlacementIndices (exactData inp w a) = a"
  "initialBestCoverage (exactData inp w a) = 0"
  by (simp_all add: exactData_def)

lemma meta_read:
  assumes "j < length (concat (piecePlacements inp))" "k < 6"
  shows "ta_get (placementsMeta (exactData inp w a)) (int j * 6 + int k)
           = Some (metaRow (concat (piecePlacements inp) ! j)
                     (length (concat (map pl_targets (take j (concat (piecePlacements inp)))))) ! k)"
proof -
  have n: "nat (int j * 6 + int k) = 6 * j + k" by (simp add: nat_add_distrib nat_mult_distrib)
  have "6 * j + k < 6 * length (concat (piecePlacements inp))" using assms by simp
  then show ?thesis
    using exactMeta_nth[OF assms, of 0]
    by (simp add: ta_get_def length_exactMeta n)
qed

lemma metaField_read:
  assumes "j < length (concat (piecePlacements inp))"
  shows "metaField (exactData inp w a) (int j) 1 = pl_pieceId (concat (piecePlacements inp) ! j)"
    and "metaField (exactData inp w a) (int j) 2 = int (pl_anchorIdx (concat (piecePlacements inp) ! j))"
    and "metaField (exactData inp w a) (int j) 3 = int (pl_rot (concat (piecePlacements inp) ! j))"
    and "metaField (exactData inp w a) (int j) 5
           = int (length (pl_targets (concat (piecePlacements inp) ! j)))"
  using meta_read[OF assms, of 1 w a] meta_read[OF assms, of 2 w a]
    meta_read[OF assms, of 3 w a] meta_read[OF assms, of 5 w a]
  by (simp_all add: metaField_def metaRow_def)

lemma placementTargets_read:
  assumes "j < length (concat (piecePlacements inp))"
  shows "placementTargets (exactData inp w a) (int j)
           = map int (pl_targets (concat (piecePlacements inp) ! j))"
proof -
  let ?all = "concat (piecePlacements inp)"
  let ?tss = "map pl_targets ?all"
  let ?c = "length (concat (take j ?tss))"
  let ?n = "length (pl_targets (?all ! j))"
  have j': "j < length ?tss" using assms by simp
  have tj: "?tss ! j = pl_targets (?all ! j)" using assms by simp
  have r4: "ta_get (placementsMeta (exactData inp w a)) (int j * 6 + 4) = Some (int ?c)"
    using meta_read[OF assms, of 4 w a] by (simp add: metaRow_def take_map)
  have r5: "ta_get (placementsMeta (exactData inp w a)) (int j * 6 + 5) = Some (int ?n)"
    using meta_read[OF assms, of 5 w a] by (simp add: metaRow_def)
  have bound: "?c + ?n \<le> length (concat ?tss)"
  proof -
    have "length (concat ?tss)
            = ?c + length (?tss ! j) + length (concat (drop (Suc j) ?tss))"
      using arg_cong[OF concat_split_at[OF j'], of length] by simp
    then show ?thesis by (simp add: tj)
  qed
  have inner: "map (\<lambda>ti. case ta_get (placementsTargets (exactData inp w a)) ti of
                              Some c \<Rightarrow> c | None \<Rightarrow> - 1)
                 (map int [?c ..< ?c + ?n])
             = map int (map ((!) (concat ?tss)) [?c ..< ?c + ?n])"
    using bound by (simp add: ta_get_def)
  have slice: "map ((!) (concat ?tss)) [?c ..< ?c + ?n] = pl_targets (?all ! j)"
    using map_nth_slice[OF bound] concat_slice[OF j'] by (simp add: tj)
  have "placementTargets (exactData inp w a) (int j)
          = map (\<lambda>ti. case ta_get (placementsTargets (exactData inp w a)) ti of
                         Some c \<Rightarrow> c | None \<Rightarrow> - 1) [int ?c .. int ?c + int ?n - 1]"
    by (simp only: placementTargets_def r4 r5 prod.case option.case)
  also have "\<dots> = map int (map ((!) (concat ?tss)) [?c ..< ?c + ?n])"
    by (simp only: upto_as_upt inner)
  also have "\<dots> = map int (pl_targets (?all ! j))"
    by (simp only: slice)
  finally show ?thesis .
qed

lemma pieceStart_read:
  "i < length (inPieces inp) \<Longrightarrow>
     pieceStart (exactData inp w a) i = int (length (concat (take i (piecePlacements inp))))"
  by (simp add: pieceStart_def ta_get_def exactStarts_nth)

lemma pieceCount_read:
  "i < length (inPieces inp) \<Longrightarrow>
     pieceCount (exactData inp w a) i = length (piecePlacements inp ! i)"
  by (simp add: pieceCount_def ta_get_def)

text \<open>
  The interface between the two sides: placement number \<open>off\<close> of piece \<open>i\<close> in the
  tables is an enumerated placement of that piece, with its fields and its targets.
\<close>

lemma table_placement:
  assumes i: "i < length (inPieces inp)" and off: "off < pieceCount (exactData inp w a) i"
  defines "p \<equiv> pieceStart (exactData inp w a) i + int off"
  shows "\<exists>pl. placement_of inp i pl
           \<and> metaField (exactData inp w a) p 1 = pl_pieceId pl
           \<and> metaField (exactData inp w a) p 2 = int (pl_anchorIdx pl)
           \<and> metaField (exactData inp w a) p 3 = int (pl_rot pl)
           \<and> metaField (exactData inp w a) p 5 = int (length (pl_targets pl))
           \<and> placementTargets (exactData inp w a) p = map int (pl_targets pl)"
proof -
  let ?pp = "piecePlacements inp"
  let ?j = "length (concat (take i ?pp)) + off"
  have i': "i < length ?pp" using i by simp
  have off': "off < length (?pp ! i)" using off i by (simp add: pieceCount_read)
  have pj: "p = int ?j" using i by (simp add: p_def pieceStart_read)
  have nth: "concat ?pp ! ?j = ?pp ! i ! off" and j: "?j < length (concat ?pp)"
    using concat_nth_offset[OF i' off'] by simp_all
  have "placement_of inp i (?pp ! i ! off)"
    using piecePlacements_member[OF i, of "?pp ! i ! off"] off' by simp
  then show ?thesis
    unfolding pj
    using metaField_read[OF j, of w a] placementTargets_read[OF j, of w a]
    by (intro exI[of _ "?pp ! i ! off"]) (simp add: nth)
qed


subsection \<open>Rotation and translation are one-to-one\<close>

lemma rotateHex_back: "rotateHex (rotateHex h k) (- k) = h"
proof -
  let ?n = "nat (k mod 6)" and ?m = "nat ((- k) mod 6)"
  have "(k mod 6 + (- k) mod 6) mod 6 = 0" by presburger
  moreover have "0 \<le> k mod 6" "k mod 6 < 6" "0 \<le> (- k) mod 6" "(- k) mod 6 < 6" by simp_all
  ultimately have "k mod 6 + (- k) mod 6 = 0 \<or> k mod 6 + (- k) mod 6 = 6" by presburger
  then have "?n + ?m = 0 \<or> ?n + ?m = 6" by (auto simp: nat_add_distrib[symmetric] simp del: nat_add_distrib)
  then have "lib_rot_loop (?n + ?m) (toAx h) = toAx h"
  proof
    assume "?n + ?m = 0"
    then show ?thesis by (simp only: lib_rot_loop.simps(1))
  next
    assume "?n + ?m = 6"
    then show ?thesis by (simp only: lib_rot_loop_6)
  qed
  then show ?thesis
    by (simp add: rotateHex_closed toAx_toOff cube_ok_lib cube_ok_toAx toOff_toAx
        lib_rot_loop_add[symmetric])
qed

lemma rotateHex_inj: "rotateHex a k = rotateHex b k \<Longrightarrow> a = b"
  by (metis rotateHex_back)

lemma addHex_inj: "addHex a b = addHex a c \<Longrightarrow> b = c"
  by (cases b, cases c) (auto simp: addHex_def Let_def Hex_def)

subsection \<open>Properties of an enumerated placement\<close>

lemma list_all2_targets:
  assumes "list_all2 (\<lambda>off t. f off = Some t) cells ts"
  shows "ts = map (\<lambda>off. the (f off)) cells"
    and "concat (map (\<lambda>off. case f off of None \<Rightarrow> [] | Some idx \<Rightarrow> [idx]) cells) = ts"
  using assms by (induction cells ts rule: list_all2_induct) simp_all

lemma placement_of_targets:
  assumes "placement_of inp i pl"
  shows "length (pl_targets pl) = length (piece_cells (inPieces inp ! i))"
    and "\<forall>t \<in> set (pl_targets pl). t < length (boardGrid inp)"
    and "distinct (piece_cells (inPieces inp ! i)) \<Longrightarrow> distinct (pl_targets pl)"
proof -
  let ?b = "boardGrid inp"
  let ?a = "?b ! pl_anchorIdx pl"
  let ?f = "\<lambda>off. cellIndexMap ?b (addHex ?a (rotateHex off (int (pl_rot pl))))"
  let ?cells = "piece_cells (inPieces inp ! i)"
  have l2: "list_all2 (\<lambda>off t. ?f off = Some t) ?cells (pl_targets pl)"
    using assms by (intro placeTargets_Some) (simp add: placement_of_def)
  show "length (pl_targets pl) = length ?cells"
    using l2 by (simp add: list_all2_lengthD)
  show "\<forall>t \<in> set (pl_targets pl). t < length ?b"
  proof
    fix t assume "t \<in> set (pl_targets pl)"
    then obtain off where "?f off = Some t"
      using l2 by (auto simp: list_all2_conv_all_nth in_set_conv_nth)
    then show "t < length ?b"
      by (simp add: cellIndexMap_Some_iff[OF distinct_boardGrid])
  qed
  show "distinct (pl_targets pl)" if d: "distinct ?cells"
  proof -
    have ts: "pl_targets pl = map (\<lambda>off. the (?f off)) ?cells"
      by (rule list_all2_targets(1)[OF l2])
    have some: "\<And>off. off \<in> set ?cells \<Longrightarrow> \<exists>t. ?f off = Some t"
      using l2 by (auto simp: list_all2_conv_all_nth in_set_conv_nth)
    have "inj_on (\<lambda>off. the (?f off)) (set ?cells)"
    proof (rule inj_onI)
      fix x y assume x: "x \<in> set ?cells" and y: "y \<in> set ?cells"
        and e: "the (?f x) = the (?f y)"
      from some[OF x] some[OF y] e obtain t where "?f x = Some t" "?f y = Some t" by auto
      then have "addHex ?a (rotateHex x (int (pl_rot pl))) = addHex ?a (rotateHex y (int (pl_rot pl)))"
        by (simp add: cellIndexMap_Some_iff[OF distinct_boardGrid])
      then show "x = y" by (auto dest!: addHex_inj rotateHex_inj)
    qed
    with d show ?thesis by (simp add: ts distinct_map)
  qed
qed

lemma find_distinct_ids:
  assumes "distinct (map piece_id ps)" "i < length ps"
  shows "findPiece ps (piece_id (ps ! i)) = Some (ps ! i)"
  using assms unfolding findPiece_def
proof (induction ps arbitrary: i)
  case Nil
  then show ?case by simp
next
  case (Cons a ps)
  show ?case
  proof (cases i)
    case 0
    then show ?thesis by simp
  next
    case (Suc j)
    with Cons.prems have "ps ! j \<in> set ps" by simp
    then have "piece_id (ps ! j) \<in> piece_id ` set ps" by (rule imageI)
    with Cons.prems have "piece_id (ps ! j) \<noteq> piece_id a"
      by auto
    with Cons Suc show ?thesis by simp
  qed
qed

text \<open>Replaying the exported form of an enumerated placement gives its targets again.\<close>

lemma replay_placement:
  assumes pl: "placement_of inp i pl" and ids: "distinct (map piece_id (inPieces inp))"
  shows "replayTargets inp \<lparr> out_piece = pl_pieceId pl,
                              out_anchor = Some (boardGrid inp ! pl_anchorIdx pl),
                              out_rot = int (pl_rot pl) \<rparr> = pl_targets pl"
proof -
  let ?b = "boardGrid inp"
  let ?a = "?b ! pl_anchorIdx pl"
  let ?f = "\<lambda>off. cellIndexMap ?b (addHex ?a (rotateHex off (int (pl_rot pl))))"
  have l2: "list_all2 (\<lambda>off t. ?f off = Some t) (piece_cells (inPieces inp ! i)) (pl_targets pl)"
    using pl by (intro placeTargets_Some) (simp add: placement_of_def)
  have f: "findPiece (inPieces inp) (pl_pieceId pl) = Some (inPieces inp ! i)"
    using pl find_distinct_ids[OF ids, of i] by (simp add: placement_of_def)
  show ?thesis
    using list_all2_targets(2)[OF l2] by (simp add: replayTargets_def f)
qed

section \<open>What the worker records\<close>

subsection \<open>Well-formed tables\<close>

text \<open>
  The conditions on the tables that the theorems about the search use.  A placement of
  piece \<open>i\<close> is good when its length field is the number of its targets and the size of
  the piece, and its targets are distinct cells of the board.  A piece is good when its
  index does not wrap to -1 in the \<open>Int16Array\<close>, its size is not negative, and all its
  placements are good.
\<close>

definition good_placement :: "worker_data \<Rightarrow> nat \<Rightarrow> int \<Rightarrow> bool" where
  "good_placement T i p =
     (metaField T p 5 = int (length (placementTargets T p))
      \<and> int (length (placementTargets T p)) = pieceSize T i
      \<and> distinct (placementTargets T p)
      \<and> list_all (\<lambda>c. 0 \<le> c \<and> c < boardSize T) (placementTargets T p))"

definition piecePlacementIndices :: "worker_data \<Rightarrow> nat \<Rightarrow> int list" where
  "piecePlacementIndices T i = map (\<lambda>off. pieceStart T i + int off) [0 ..< pieceCount T i]"

definition piece_ok :: "worker_data \<Rightarrow> nat \<Rightarrow> bool" where
  "piece_ok T i =
     (i < 65535 \<and> 0 \<le> pieceSize T i \<and> list_all (good_placement T i) (piecePlacementIndices T i))"

definition wf_tables :: "worker_data \<Rightarrow> bool" where
  "wf_tables T = (0 \<le> boardSize T \<and> distinct (pieceOrder T) \<and> list_all (piece_ok T) (pieceOrder T))"

text \<open>The assigned placements are placements of the first piece of the order.\<close>

definition wf_assigned :: "worker_data \<Rightarrow> int list \<Rightarrow> bool" where
  "wf_assigned T ps =
     (ps = [] \<or> (pieceOrder T \<noteq> [] \<and> list_all (\<lambda>p. p \<in> set (piecePlacementIndices T (firstPiece T))) ps))"

lemma validPlacements_fst:
  "map fst (validPlacements T occ i) = filter (placementFree T occ) (piecePlacementIndices T i)"
  by (simp add: validPlacements_def piecePlacementIndices_def comp_def)

lemma valid_member:
  "v \<in> set (validPlacements T occ i) \<Longrightarrow>
     placementFree T occ (fst v) \<and> fst v \<in> set (piecePlacementIndices T i)"
proof -
  assume "v \<in> set (validPlacements T occ i)"
  then have "fst v \<in> set (map fst (validPlacements T occ i))" by simp
  then show ?thesis by (simp add: validPlacements_fst)
qed

lemma piece_ok_placement:
  "piece_ok T i \<Longrightarrow> p \<in> set (piecePlacementIndices T i) \<Longrightarrow> good_placement T i p"
  by (simp add: piece_ok_def list_all_iff)

subsection \<open>Solutions as lists of table placements\<close>

definition solTargets :: "worker_data \<Rightarrow> sol_item list \<Rightarrow> int list" where
  "solTargets T sol = concat (map (\<lambda>it. placementTargets T (pIdx it)) sol)"

text \<open>
  A valid packing: an entry per placement of the tables, made by \<open>mkItem\<close>, or by
  \<open>firstItem\<close> for a placement of the first piece; all target cells on the board and
  no cell twice.
\<close>

definition good_solution :: "worker_data \<Rightarrow> sol_item list \<Rightarrow> bool" where
  "good_solution T sol =
     (distinct (solTargets T sol)
      \<and> (\<forall>c \<in> set (solTargets T sol). 0 \<le> c \<and> c < boardSize T)
      \<and> (\<forall>it \<in> set sol.
            (it = mkItem T (pIdx it)
             \<or> it = firstItem T (pIdx it)
                 \<and> pIdx it \<in> set (piecePlacementIndices T (firstPiece T)))
            \<and> (\<exists>i \<in> set (pieceOrder T). pIdx it \<in> set (piecePlacementIndices T i))))"

definition covered :: "worker_data \<Rightarrow> sol_item list \<Rightarrow> wstate \<Rightarrow> bool" where
  "covered T sol st = (\<forall>c \<in> set (solTargets T sol). ta_get (occupancy st) c \<noteq> Some (- 1))"

text \<open>
  The recorded solutions are the exports of valid packings with pairwise different
  signatures, and \<open>seenSignatures\<close> is the set of these signatures.
\<close>

definition rec_inv :: "worker_data \<Rightarrow> wstate \<Rightarrow> bool" where
  "rec_inv T st =
     (\<exists>isols. topSolutions st = map (exportSolution T) isols
        \<and> seenSignatures st = set (map (getSolutionCellSignature T) isols)
        \<and> distinct (map (getSolutionCellSignature T) isols)
        \<and> (\<forall>sol \<in> set isols. good_solution T sol))"

lemma rest_fields:
  "rest_of a = rest_of b \<Longrightarrow> topSolutions a = topSolutions b"
  "rest_of a = rest_of b \<Longrightarrow> seenSignatures a = seenSignatures b"
  "rest_of a = rest_of b \<Longrightarrow> bestCoverage a = bestCoverage b"
  "rest_of a = rest_of b \<Longrightarrow> searchCount a = searchCount b"
  by (simp_all add: rest_of_def)

lemma rec_inv_rest: "rest_of a = rest_of b \<Longrightarrow> rec_inv T a = rec_inv T b"
  using rest_fields(1,2)[of a b] by (simp add: rec_inv_def)

lemma covered_core: "core a = core b \<Longrightarrow> covered T sol a = covered T sol b"
  using core_fields(1)[of a b] by (simp add: covered_def)

lemma node_new:
  assumes "bestCoverage st0 < cov"
  shows "topSolutions (nodeState T cur cov st0) = [exportSolution T cur]"
    and "seenSignatures (nodeState T cur cov st0) = {getSolutionCellSignature T cur}"
    and "bestCoverage (nodeState T cur cov st0) = cov"
  using assms by (simp_all add: nodeState_def recordSolution_def)

lemma node_tie:
  assumes "\<not> bestCoverage st0 < cov" "cov = bestCoverage st0" "0 < cov"
    "getSolutionCellSignature T cur \<notin> seenSignatures st0"
  shows "topSolutions (nodeState T cur cov st0) = topSolutions st0 @ [exportSolution T cur]"
    and "seenSignatures (nodeState T cur cov st0)
           = insert (getSolutionCellSignature T cur) (seenSignatures st0)"
    and "bestCoverage (nodeState T cur cov st0) = bestCoverage st0"
  using assms by (simp_all add: nodeState_def recordSolution_def Let_def)

lemma node_same:
  assumes "\<not> bestCoverage st0 < cov"
    "\<not> (cov = bestCoverage st0 \<and> 0 < cov \<and> getSolutionCellSignature T cur \<notin> seenSignatures st0)"
  shows "topSolutions (nodeState T cur cov st0) = topSolutions st0"
    and "seenSignatures (nodeState T cur cov st0) = seenSignatures st0"
    and "bestCoverage (nodeState T cur cov st0) = bestCoverage st0"
  using assms by (auto simp: nodeState_def recordSolution_def Let_def)

lemma rec_inv_node:
  assumes "rec_inv T st0" "good_solution T cur"
  shows "rec_inv T (nodeState T cur cov st0)"
proof -
  from assms(1) obtain isols where i: "topSolutions st0 = map (exportSolution T) isols"
    "seenSignatures st0 = set (map (getSolutionCellSignature T) isols)"
    "distinct (map (getSolutionCellSignature T) isols)"
    "\<forall>sol \<in> set isols. good_solution T sol"
    unfolding rec_inv_def by blast
  show ?thesis
  proof (cases "bestCoverage st0 < cov")
    case True
    show ?thesis
      unfolding rec_inv_def
      by (rule exI[of _ "[cur]"]) (simp add: node_new[OF True] assms(2))
  next
    case False
    show ?thesis
    proof (cases "cov = bestCoverage st0 \<and> 0 < cov
                    \<and> getSolutionCellSignature T cur \<notin> seenSignatures st0")
      case True
      then have t: "cov = bestCoverage st0" "0 < cov"
        "getSolutionCellSignature T cur \<notin> seenSignatures st0" by simp_all
      show ?thesis
        unfolding rec_inv_def
      proof (rule exI[of _ "isols @ [cur]"], intro conjI)
        show "topSolutions (nodeState T cur cov st0) = map (exportSolution T) (isols @ [cur])"
          by (simp add: node_tie(1)[OF False t] i(1))
        show "seenSignatures (nodeState T cur cov st0)
                = set (map (getSolutionCellSignature T) (isols @ [cur]))"
          by (simp add: node_tie(2)[OF False t] i(2))
        show "distinct (map (getSolutionCellSignature T) (isols @ [cur]))"
          using i(3) t(3) by (simp add: i(2))
        show "\<forall>sol \<in> set (isols @ [cur]). good_solution T sol"
          using i(4) assms(2) by simp
      qed
    next
      case same: False
      show ?thesis
        unfolding rec_inv_def
        by (rule exI[of _ isols]) (simp add: node_same[OF False same] i)
    qed
  qed
qed


subsection \<open>The recording invariant along the search\<close>

definition search_pre :: "worker_data \<Rightarrow> nat list \<Rightarrow> sol_item list \<Rightarrow> wstate \<Rightarrow> bool" where
  "search_pre T rem cur st =
     (frame_ok rem st \<and> length (occupancy st) = nat (boardSize T) \<and> 0 \<le> boardSize T
      \<and> (\<forall>i \<in> set rem. piece_ok T i) \<and> set rem \<subseteq> set (pieceOrder T)
      \<and> good_solution T cur \<and> covered T cur st)"

lemma search_pre_core: "core a = core b \<Longrightarrow> search_pre T rem cur a = search_pre T rem cur b"
  using frame_ok_core[of a b rem] covered_core[of a b T cur] core_fields(1)[of a b]
  by (simp add: search_pre_def)

lemma pIdx_mkItem [simp]: "pIdx (mkItem T p) = p"
  by (simp add: mkItem_def)

lemma pIdx_firstItem [simp]: "pIdx (firstItem T p) = p"
  by (simp add: firstItem_def)

lemma solTargets_snoc: "solTargets T (cur @ [it]) = solTargets T cur @ placementTargets T (pIdx it)"
  by (simp add: solTargets_def)

lemma free_range:
  "placementFree T occ p \<Longrightarrow> c \<in> set (placementTargets T p) \<Longrightarrow> 0 \<le> c \<and> c < int (length occ)"
  by (auto simp: placementFree_iff dest: ta_get_Some_range)

lemma good_solution_snoc:
  assumes g: "good_solution T cur" and c: "covered T cur st"
    and free: "placementFree T (occupancy st) p"
    and len: "length (occupancy st) = nat (boardSize T)" "0 \<le> boardSize T"
    and i: "i \<in> set (pieceOrder T)" and p: "p \<in> set (piecePlacementIndices T i)"
    and ok: "piece_ok T i"
    and it: "pIdx it = p"
      "it = mkItem T p \<or> it = firstItem T p \<and> p \<in> set (piecePlacementIndices T (firstPiece T))"
  shows "good_solution T (cur @ [it])"
proof -
  have gp: "good_placement T i p" by (rule piece_ok_placement[OF ok p])
  have d: "distinct (placementTargets T p)" using gp by (simp add: good_placement_def)
  have disj: "set (solTargets T cur) \<inter> set (placementTargets T p) = {}"
    using c free by (auto simp: covered_def placementFree_iff)
  have rng: "\<forall>c \<in> set (placementTargets T p). 0 \<le> c \<and> c < boardSize T"
    using free_range[OF free] len by auto
  show ?thesis
    using g d disj rng i p it
    unfolding good_solution_def solTargets_snoc it(1)
    by auto
qed

lemma covered_apply:
  assumes c: "covered T cur st" and free: "placementFree T (occupancy st) p"
    and v: "to_int16 v \<noteq> - 1" and it: "pIdx it = p"
  shows "covered T (cur @ [it]) (applyPlacementByIndex T p v st)"
  unfolding covered_def solTargets_snoc it
proof
  fix x assume "x \<in> set (solTargets T cur @ placementTargets T p)"
  then consider "x \<in> set (placementTargets T p)"
    | "x \<notin> set (placementTargets T p)" "x \<in> set (solTargets T cur)" by auto
  then show "ta_get (occupancy (applyPlacementByIndex T p v st)) x \<noteq> Some (- 1)"
  proof cases
    case 1
    with free_range[OF free 1] v show ?thesis
      by (simp add: apply_fields ta_get_markCells)
  next
    case 2
    with c show ?thesis
      by (simp add: apply_fields ta_get_markCells covered_def)
  qed
qed

lemma search_pre_child_item:
  assumes pre: "search_pre T rem cur st" and ri: "ri < length rem"
    and free: "placementFree T (occupancy st) p"
    and p: "p \<in> set (piecePlacementIndices T (rem ! ri))"
    and it: "pIdx it = p"
      "it = mkItem T p \<or> it = firstItem T p \<and> p \<in> set (piecePlacementIndices T (firstPiece T))"
  shows "search_pre T (dropAt ri rem) (cur @ [it])
           (applyPlacementByIndex T p (int (rem ! ri)) st)"
proof -
  have mem: "rem ! ri \<in> set rem" using ri by simp
  have ok: "piece_ok T (rem ! ri)" and ord: "rem ! ri \<in> set (pieceOrder T)"
    using pre mem by (auto simp: search_pre_def)
  have v: "to_int16 (int (rem ! ri)) \<noteq> - 1"
    using ok by (intro to_int16_piece) (simp add: piece_ok_def)
  have f: "frame_ok (dropAt ri rem) (applyPlacementByIndex T p (int (rem ! ri)) st)"
    using pre ri free by (intro frame_ok_apply) (simp_all add: search_pre_def)
  have g: "good_solution T (cur @ [it])"
    using pre by (intro good_solution_snoc[OF _ _ free _ _ ord p ok it])
      (simp_all add: search_pre_def)
  have c: "covered T (cur @ [it]) (applyPlacementByIndex T p (int (rem ! ri)) st)"
    using pre by (intro covered_apply[OF _ free v it(1)]) (simp_all add: search_pre_def)
  have sub: "set (dropAt ri rem) \<subseteq> set rem" by (rule set_dropAt)
  show ?thesis
    using pre f g c sub
    by (auto simp: search_pre_def apply_fields)
qed

lemma search_pre_child:
  assumes "search_pre T rem cur st" "ri < length rem" "placementFree T (occupancy st) p"
    "p \<in> set (piecePlacementIndices T (rem ! ri))"
  shows "search_pre T (dropAt ri rem) (cur @ [mkItem T p])
           (applyPlacementByIndex T p (int (rem ! ri)) st)"
  by (rule search_pre_child_item[OF assms]) simp_all

lemma rec_inv_search:
  shows "search_pre T rem cur st0 \<Longrightarrow> rec_inv T st0
           \<Longrightarrow> rec_inv T (snd (backtrack T rem rs cur cov st0))"
    and "search_pre T rem cur st \<Longrightarrow> rec_inv T st \<Longrightarrow> ri < length rem
           \<Longrightarrow> \<forall>v \<in> set vs. placementFree T (occupancy st) (fst v)
                  \<and> fst v \<in> set (piecePlacementIndices T (rem ! ri))
           \<Longrightarrow> rec_inv T (snd (tryPlacements T rem ri rs cur cov vs st))"
proof (induction T rem rs cur cov st0 and T rem ri rs cur cov vs st rule: backtrack_induct)
  case (node T rem rs cur cov st0)
  let ?x = "nodeState T cur cov st0"
  have px: "search_pre T rem cur ?x"
    using node.prems(1) search_pre_core[of ?x st0 T rem cur] by simp
  have rx: "rec_inv T ?x"
    using node.prems by (intro rec_inv_node) (simp_all add: search_pre_def)
  have ox: "occupancy ?x = occupancy st0" by (rule core_fields(1)) simp
  show ?case
  proof (cases "shouldStop st0")
    case True
    with node.prems show ?thesis by (simp add: backtrack_unfold)
  next
    case ns: False
    show ?thesis
    proof (cases "boardSize T \<le> cov \<or> cov + rs \<le> bestCoverage ?x \<or> rem = []")
      case True
      with ns rx show ?thesis by (auto simp: backtrack_unfold)
    next
      case False
      show ?thesis
      proof (cases "selectPiece T (occupancy ?x) rem")
        case None
        with ns False rx show ?thesis by (simp add: backtrack_unfold)
      next
        case (Some ri)
        let ?vs = "validPlacements T (occupancy ?x) (rem ! ri)"
        show ?thesis
        proof (cases "?vs = []")
          case True
          with ns False Some rx show ?thesis by (simp add: backtrack_unfold)
        next
          case nonempty: False
          have "rec_inv T (snd (tryPlacements T rem ri rs cur cov (sortByAdj ?vs) ?x))"
            using ns False Some nonempty px rx
            by (intro node.IH) (auto dest: selectPiece_bound valid_member)
          with ns False Some nonempty show ?thesis by (simp add: backtrack_unfold)
        qed
      qed
    qed
  qed
next
  case (nil T rem ri rs cur cov st)
  then show ?case by simp
next
  case (cons T rem ri rs cur cov v vs st)
  show ?case
  proof (cases "shouldStop st")
    case True
    with cons.prems show ?thesis by (simp add: tryPlacements_unfold)
  next
    case False
    let ?p = "fst v"
    let ?st1 = "applyPlacementByIndex T ?p (int (rem ! ri)) st"
    let ?c = "childCall T rem ri rs cur cov ?p st"
    let ?st3 = "undoPlacementByIndex T ?p (snd ?c)"
    have free: "placementFree T (occupancy st) ?p"
      and p: "?p \<in> set (piecePlacementIndices T (rem ! ri))"
      using cons.prems(4) by simp_all
    have fr: "frame_ok rem st" using cons.prems(1) by (simp add: search_pre_def)
    have pre1: "search_pre T (dropAt ri rem) (cur @ [mkItem T ?p]) ?st1"
      by (rule search_pre_child[OF cons.prems(1,3) free p])
    have r1: "rec_inv T ?st1"
      using cons.prems(2) rec_inv_rest[OF apply_rest[of T ?p "int (rem ! ri)" st], of T] by simp
    have rc: "rec_inv T (snd ?c)"
      using cons.IH(1)[OF False pre1 r1] by (simp add: childCall_def)
    have r3: "rec_inv T ?st3"
      using rc rec_inv_rest[OF undo_rest[of T ?p "snd ?c"], of T] by simp
    have cc: "core (snd ?c) = core ?st1"
      using restore(1)[of "dropAt ri rem" ?st1] pre1
      by (simp add: childCall_def search_pre_def)
    have c3: "core ?st3 = core st"
      using fr by (intro undo_apply_core[OF free _ _ _ _ cc]) (simp_all add: frame_ok_def)
    show ?thesis
    proof (cases "fst ?c")
      case True
      with False r3 show ?thesis by (simp add: tryPlacements_unfold)
    next
      case f: False
      have "rec_inv T (snd (tryPlacements T rem ri rs cur cov vs ?st3))"
        using cons.prems search_pre_core[OF c3, of T rem cur] r3
        by (intro cons.IH(2)[OF False f]) (simp_all add: core_fields(1)[OF c3])
      with False f show ?thesis by (simp add: tryPlacements_unfold)
    qed
  qed
qed


subsection \<open>The loop of \<open>solve\<close>\<close>

definition clean :: "worker_data \<Rightarrow> wstate \<Rightarrow> bool" where
  "clean T st =
     (occupancy st = replicate (nat (boardSize T)) (- 1)
      \<and> depthStamp st = replicate (nat (boardSize T)) 0 \<and> depth st = 0)"

lemma clean_core: "core a = core b \<Longrightarrow> clean T a = clean T b"
  by (simp add: clean_def core_def)

lemma clean_initial: "clean T (initialState T)"
  by (simp add: clean_def initialState_def)

lemma distinct_bounded_length:
  assumes "distinct (xs :: nat list)" "\<forall>x \<in> set xs. x < n"
  shows "length xs \<le> n"
proof -
  have "card (set xs) \<le> card {..<n}"
    using assms(2) by (intro card_mono) auto
  with assms(1) show ?thesis by (simp add: distinct_card)
qed

lemma length_pieceOrder: "wf_tables T \<Longrightarrow> length (pieceOrder T) \<le> 65535"
  by (rule distinct_bounded_length) (auto simp: wf_tables_def list_all_iff piece_ok_def)

lemma ta_get_replicate: "ta_get (replicate n v) j = (if 0 \<le> j \<and> j < int n then Some v else None)"
proof (cases "0 \<le> j \<and> j < int n")
  case True
  then have "nat j < n" by linarith
  with True show ?thesis by (simp add: ta_get_def)
next
  case False
  then show ?thesis by (auto simp: ta_get_def)
qed

lemma search_pre_clean:
  assumes "wf_tables T" "clean T st"
  shows "search_pre T (pieceOrder T) [] st"
proof -
  have "frame_ok (pieceOrder T) st"
    using assms length_pieceOrder[OF assms(1)]
    by (auto simp: frame_ok_def clean_def stamp_inv_def ta_get_replicate wf_tables_def
        list_all_iff piece_ok_def)
  then show ?thesis
    using assms
    by (auto simp: search_pre_def clean_def wf_tables_def list_all_iff good_solution_def
        solTargets_def covered_def)
qed

lemma dropAt_0: "dropAt 0 xs = drop 1 xs"
  by (simp add: dropAt_def)

lemma firstPiece_nth: "pieceOrder T \<noteq> [] \<Longrightarrow> firstPiece T = pieceOrder T ! 0"
  by (cases "pieceOrder T") (simp_all add: firstPiece_def)

text \<open>One round of the loop, for a placement of the first piece.\<close>

definition solveStep :: "worker_data \<Rightarrow> int \<Rightarrow> wstate \<Rightarrow> wstate" where
  "solveStep T p st =
     (undoPlacementByIndex T p
        (snd (backtrack T (drop 1 (pieceOrder T)) (sumRemainingSizes T (drop 1 (pieceOrder T)))
                [firstItem T p] (metaField T p 5)
                (applyPlacementByIndex T p (int (firstPiece T)) st))))
       \<lparr> depth := 0 \<rparr>"

lemma solveLoop_Cons:
  "solveLoop T (p # ps) st = (if shouldStop st then st else solveLoop T ps (solveStep T p st))"
  by (simp add: solveStep_def Let_def split: prod.split)

declare solveLoop.simps(2) [simp del]

lemma free_clean:
  assumes "clean T st" "good_placement T i p" "0 \<le> boardSize T"
  shows "placementFree T (occupancy st) p"
  using assms
  by (auto simp: placementFree_iff clean_def good_placement_def list_all_iff ta_get_replicate)

lemma solveStep_inv:
  assumes wf: "wf_tables T" and ne: "pieceOrder T \<noteq> []"
    and p: "p \<in> set (piecePlacementIndices T (firstPiece T))"
    and cl: "clean T st" and ri: "rec_inv T st"
  shows "clean T (solveStep T p st) \<and> rec_inv T (solveStep T p st)"
proof -
  let ?f = "firstPiece T"
  let ?rem = "drop 1 (pieceOrder T)"
  let ?st1 = "applyPlacementByIndex T p (int ?f) st"
  let ?bt = "backtrack T ?rem (sumRemainingSizes T ?rem) [firstItem T p] (metaField T p 5) ?st1"
  let ?st3 = "undoPlacementByIndex T p (snd ?bt)"
  have f0: "?f = pieceOrder T ! 0" by (rule firstPiece_nth[OF ne])
  have l0: "0 < length (pieceOrder T)" using ne by simp
  have fm: "?f \<in> set (pieceOrder T)" using f0 ne by simp
  have ok: "piece_ok T ?f" using wf fm by (simp add: wf_tables_def list_all_iff)
  have gp: "good_placement T ?f p" by (rule piece_ok_placement[OF ok p])
  have b: "0 \<le> boardSize T" using wf by (simp add: wf_tables_def)
  have free: "placementFree T (occupancy st) p" by (rule free_clean[OF cl gp b])
  have pre0: "search_pre T (pieceOrder T) [] st" by (rule search_pre_clean[OF wf cl])
  have pre1: "search_pre T ?rem ([] @ [firstItem T p]) ?st1"
    using search_pre_child_item[OF pre0 l0 free, of "firstItem T p"] p
    by (simp add: f0[symmetric] dropAt_0)
  have r1: "rec_inv T ?st1"
    using ri rec_inv_rest[OF apply_rest[of T p "int ?f" st], of T] by simp
  have rb: "rec_inv T (snd ?bt)"
    using rec_inv_search(1)[of T ?rem "[firstItem T p]" ?st1] pre1 r1 by simp
  have r3: "rec_inv T ?st3"
    using rb rec_inv_rest[OF undo_rest[of T p "snd ?bt"], of T] by simp
  have cb: "core (snd ?bt) = core ?st1"
    using restore(1)[of ?rem ?st1] pre1 by (simp add: search_pre_def)
  have fr: "frame_ok (pieceOrder T) st" using pre0 by (simp add: search_pre_def)
  have c3: "core ?st3 = core st"
    using fr by (intro undo_apply_core[OF free _ _ _ _ cb]) (simp_all add: frame_ok_def)
  have d0: "depth st = 0" using cl by (simp add: clean_def)
  have c4: "core (solveStep T p st) = core st"
    using c3 d0 by (simp add: solveStep_def core_def)
  have r4: "rest_of (solveStep T p st) = rest_of ?st3"
    by (simp add: solveStep_def rest_of_def)
  show ?thesis
    using clean_core[OF c4, of T] cl r3 rec_inv_rest[OF r4, of T] by simp
qed

lemma rec_inv_initial: "rec_inv T (initialState T)"
  unfolding rec_inv_def by (rule exI[of _ "[]"]) (simp add: initialState_def)

lemma solveLoop_inv:
  assumes "wf_tables T" "wf_assigned T ps" "clean T st" "rec_inv T st"
  shows "clean T (solveLoop T ps st) \<and> rec_inv T (solveLoop T ps st)"
  using assms
proof (induction ps arbitrary: st)
  case Nil
  then show ?case by simp
next
  case (Cons p ps)
  have ne: "pieceOrder T \<noteq> []" and p: "p \<in> set (piecePlacementIndices T (firstPiece T))"
    and rest: "wf_assigned T ps"
    using Cons.prems(2) by (auto simp: wf_assigned_def)
  show ?case
  proof (cases "shouldStop st")
    case True
    with Cons.prems show ?thesis by (simp add: solveLoop_Cons)
  next
    case False
    from solveStep_inv[OF Cons.prems(1) ne p Cons.prems(3,4)]
    have "clean T (solveLoop T ps (solveStep T p st)) \<and> rec_inv T (solveLoop T ps (solveStep T p st))"
      by (intro Cons.IH[OF Cons.prems(1) rest]) simp_all
    with False show ?thesis by (simp add: solveLoop_Cons)
  qed
qed

theorem solve_rec_inv:
  assumes "wf_tables T" "wf_assigned T (assignedPlacementIndices T)"
  shows "rec_inv T (solve T)"
  using solveLoop_inv[OF assms clean_initial rec_inv_initial] by (simp add: solve_def)

section \<open>Packings\<close>

text \<open>Packings as the claims speak of them, on exported placements.\<close>

definition legalPlacement :: "solver_input \<Rightarrow> out_item \<Rightarrow> bool" where
  "legalPlacement inp it =
     (case (findPiece (inPieces inp) (out_piece it), out_anchor it) of
        (Some pc, Some a) \<Rightarrow>
          a \<in> set (boardGrid inp) \<and> 0 \<le> out_rot it \<and> out_rot it < int (rotLimit inp)
          \<and> length (replayTargets inp it) = length (piece_cells pc)
      | _ \<Rightarrow> False)"

definition legalPacking :: "solver_input \<Rightarrow> out_item list \<Rightarrow> bool" where
  "legalPacking inp sol =
     (list_all (legalPlacement inp) sol \<and> distinct (map out_piece sol)
      \<and> distinct (concat (map (replayTargets inp) sol)))"

definition packingCoverage :: "solver_input \<Rightarrow> out_item list \<Rightarrow> int" where
  "packingCoverage inp sol = int (length (concat (map (replayTargets inp) sol)))"


section \<open>The tables of a run are well formed\<close>

text \<open>
  The conditions on the catalogue of a run: the pieces have pairwise different ids, no
  piece lists a cell offset twice, and there are fewer than \<open>2^16 - 1\<close> pieces (so that
  every piece index is stored unchanged in the \<open>Int16Array\<close>).
\<close>

definition wf_catalogue :: "solver_input \<Rightarrow> bool" where
  "wf_catalogue inp =
     (distinct (map piece_id (inPieces inp))
      \<and> list_all (\<lambda>pc. distinct (piece_cells pc)) (inPieces inp)
      \<and> length (inPieces inp) < 65535)"

lemma set_mainPieceOrder [simp]: "set (mainPieceOrder inp) = {0 ..< length (inPieces inp)}"
  by (simp add: mainPieceOrder_def)

lemma distinct_mainPieceOrder [simp]: "distinct (mainPieceOrder inp)"
  by (simp add: mainPieceOrder_def)

lemma pieceSize_read:
  "i < length (inPieces inp) \<Longrightarrow>
     pieceSize (exactData inp w a) i = int (length (piece_cells (inPieces inp ! i)))"
  by (simp add: pieceSize_def)

lemma good_placement_compiled:
  assumes wf: "wf_catalogue inp" and i: "i < length (inPieces inp)"
    and p: "p \<in> set (piecePlacementIndices (exactData inp w a) i)"
  shows "good_placement (exactData inp w a) i p"
proof -
  let ?T = "exactData inp w a"
  from p obtain off where off: "off < pieceCount ?T i" and pe: "p = pieceStart ?T i + int off"
    by (auto simp: piecePlacementIndices_def)
  from table_placement[OF i off] obtain pl where pl: "placement_of inp i pl"
    and m5: "metaField ?T p 5 = int (length (pl_targets pl))"
    and ts: "placementTargets ?T p = map int (pl_targets pl)"
    unfolding pe by blast
  have d: "distinct (piece_cells (inPieces inp ! i))"
    using wf i by (simp add: wf_catalogue_def list_all_length)
  note t = placement_of_targets[OF pl]
  have "distinct (map int (pl_targets pl))"
    using t(3)[OF d] by (simp add: distinct_map)
  moreover have "list_all (\<lambda>c. 0 \<le> c \<and> c < boardSize ?T) (map int (pl_targets pl))"
  proof -
    have "boardSize ?T = int (length (boardGrid inp))" by (simp add: length_boardGrid)
    with t(2) show ?thesis by (simp add: list_all_iff)
  qed
  ultimately show ?thesis
    using m5 t(1) i by (simp add: good_placement_def ts pieceSize_read)
qed

lemma wf_tables_compiled:
  assumes "wf_catalogue inp"
  shows "wf_tables (exactData inp w a)"
proof -
  have "piece_ok (exactData inp w a) i" if "i < length (inPieces inp)" for i
    using that assms good_placement_compiled[OF assms that]
    by (auto simp: piece_ok_def list_all_iff pieceSize_read wf_catalogue_def)
  then show ?thesis
    by (simp add: wf_tables_def list_all_iff)
qed

subsection \<open>The slices given to the workers\<close>

lemma exactSpawn_slices:
  "(k, assigned) \<in> set (exactSpawn fuel i nW perWorker firstStart firstCount) \<Longrightarrow>
     \<exists>s e. e \<le> firstCount \<and> assigned = map (\<lambda>j. int (firstStart + j)) [s ..< e]"
proof (induction fuel arbitrary: i)
  case 0
  then show ?case by simp
next
  case (Suc fuel)
  show ?case
  proof (cases "i < nW \<and> i * perWorker < firstCount")
    case False
    with Suc.prems show ?thesis by simp
  next
    case True
    from Suc.prems True consider
      "assigned = map (\<lambda>j. int (firstStart + j)) [i * perWorker ..< min (i * perWorker + perWorker) firstCount]"
      | "(k, assigned) \<in> set (exactSpawn fuel (i + 1) nW perWorker firstStart firstCount)"
      by (auto simp: Let_def)
    then show ?thesis
    proof cases
      case 1
      then show ?thesis
        by (intro exI[of _ "i * perWorker"] exI[of _ "min (i * perWorker + perWorker) firstCount"]) simp
    next
      case 2
      then show ?thesis by (rule Suc.IH)
    qed
  qed
qed

text \<open>Every work package is the tables of the run together with a slice of the first piece.\<close>

lemma exactPackages_member:
  assumes "T \<in> set (exactPackages inp)"
  shows "\<exists>k assigned. T = exactData inp k assigned
           \<and> mainPieceOrder inp \<noteq> []
           \<and> set assigned \<subseteq> set (piecePlacementIndices (exactData inp k assigned)
                                     (hd (mainPieceOrder inp)))"
proof (cases "mainPieceOrder inp")
  case Nil
  with assms show ?thesis by (simp add: exactPackages_def)
next
  case (Cons f rest)
  let ?start = "nat (exactStarts (piecePlacements inp) 0 ! f)"
  let ?count = "length (piecePlacements inp ! f)"
  let ?per = "(?count + numWorkers inp - 1) div numWorkers inp"
  from assms Cons obtain k assigned where T: "T = exactData inp k assigned"
    and m: "(k, assigned) \<in> set (exactSpawn (numWorkers inp) 0 (numWorkers inp) ?per ?start ?count)"
    by (auto simp: exactPackages_def Let_def)
  from exactSpawn_slices[OF m] obtain s e where e: "e \<le> ?count"
    and a: "assigned = map (\<lambda>j. int (?start + j)) [s ..< e]" by blast
  have "f \<in> set (mainPieceOrder inp)" using Cons by simp
  then have f: "f < length (inPieces inp)" by simp
  have st: "int ?start = pieceStart (exactData inp k assigned) f"
    using f by (simp add: pieceStart_read exactStarts_nth)
  have "set assigned \<subseteq> set (piecePlacementIndices (exactData inp k assigned) f)"
  proof
    fix x assume "x \<in> set assigned"
    then obtain j where j: "j < e" "x = int (?start + j)" using a by auto
    then have "x = pieceStart (exactData inp k assigned) f + int j"
      using st by simp
    moreover have "j < pieceCount (exactData inp k assigned) f"
      using j e f by (simp add: pieceCount_read)
    ultimately show "x \<in> set (piecePlacementIndices (exactData inp k assigned) f)"
      by (auto simp: piecePlacementIndices_def)
  qed
  with T Cons show ?thesis by auto
qed

lemma firstPiece_compiled: "firstPiece (exactData inp k a) = (case mainPieceOrder inp of [] \<Rightarrow> 0 | i # _ \<Rightarrow> i)"
  by (simp add: firstPiece_def)

lemma wf_assigned_package:
  assumes "T \<in> set (exactPackages inp)"
  shows "wf_assigned T (assignedPlacementIndices T)"
proof -
  from exactPackages_member[OF assms] obtain k a where T: "T = exactData inp k a"
    and ne: "mainPieceOrder inp \<noteq> []"
    and sub: "set a \<subseteq> set (piecePlacementIndices (exactData inp k a) (hd (mainPieceOrder inp)))"
    by blast
  have "firstPiece T = hd (mainPieceOrder inp)"
    using ne by (cases "mainPieceOrder inp") (simp_all add: T firstPiece_compiled)
  with sub ne show ?thesis
    by (auto simp: wf_assigned_def T list_all_iff)
qed

theorem package_rec_inv:
  assumes "wf_catalogue inp" "T \<in> set (exactPackages inp)"
  shows "rec_inv T (solve T)"
proof -
  from exactPackages_member[OF assms(2)] obtain k a where T: "T = exactData inp k a" by blast
  show ?thesis
    using wf_tables_compiled[OF assms(1), of k a] wf_assigned_package[OF assms(2)]
    unfolding T by (rule solve_rec_inv)
qed


section \<open>Exported solutions and their replay\<close>

definition exportItem :: "worker_data \<Rightarrow> sol_item \<Rightarrow> out_item" where
  "exportItem T p =
     \<lparr> out_piece = pieceId p,
       out_anchor = (if 0 \<le> anchorIdx p \<and> anchorIdx p < int (length (boardCells T))
                     then Some (boardCells T ! nat (anchorIdx p)) else None),
       out_rot = rot p \<rparr>"

lemma exportSolution_map: "exportSolution T sol = map (exportItem T) sol"
  by (simp add: exportSolution_def exportItem_def)

text \<open>
  An entry made from a placement of the tables of a run: its export replays to the
  placement's targets, on the board, in full.
\<close>

lemma item_of_table:
  assumes wf: "wf_catalogue inp" and i: "i < length (inPieces inp)"
    and p: "p \<in> set (piecePlacementIndices (exactData inp w a) i)"
  shows "\<exists>pl. placement_of inp i pl
           \<and> placementTargets (exactData inp w a) p = map int (pl_targets pl)
           \<and> exportItem (exactData inp w a) (mkItem (exactData inp w a) p)
               = \<lparr> out_piece = pl_pieceId pl,
                   out_anchor = Some (boardGrid inp ! pl_anchorIdx pl),
                   out_rot = int (pl_rot pl) \<rparr>
           \<and> metaField (exactData inp w a) p 1 = piece_id (inPieces inp ! i)"
proof -
  let ?T = "exactData inp w a"
  from p obtain off where off: "off < pieceCount ?T i" and pe: "p = pieceStart ?T i + int off"
    by (auto simp: piecePlacementIndices_def)
  from table_placement[OF i off] obtain pl where pl: "placement_of inp i pl"
    and m: "metaField ?T p 1 = pl_pieceId pl" "metaField ?T p 2 = int (pl_anchorIdx pl)"
      "metaField ?T p 3 = int (pl_rot pl)"
    and ts: "placementTargets ?T p = map int (pl_targets pl)"
    unfolding pe by blast
  have "pl_anchorIdx pl < length (boardGrid inp)" using pl by (simp add: placement_of_def)
  then have "exportItem ?T (mkItem ?T p)
               = \<lparr> out_piece = pl_pieceId pl,
                   out_anchor = Some (boardGrid inp ! pl_anchorIdx pl),
                   out_rot = int (pl_rot pl) \<rparr>"
    by (simp add: exportItem_def mkItem_def m)
  moreover have "metaField ?T p 1 = piece_id (inPieces inp ! i)"
    using pl m by (simp add: placement_of_def)
  ultimately show ?thesis using pl ts by blast
qed

lemma firstItem_compiled:
  assumes wf: "wf_catalogue inp"
    and p: "p \<in> set (piecePlacementIndices (exactData inp w a) (firstPiece (exactData inp w a)))"
  shows "firstItem (exactData inp w a) p = mkItem (exactData inp w a) p"
proof -
  let ?T = "exactData inp w a"
  let ?f = "firstPiece ?T"
  have f: "?f < length (inPieces inp)"
  proof (rule ccontr)
    assume "\<not> ?f < length (inPieces inp)"
    then have "pieceCount ?T ?f = 0" by (simp add: pieceCount_def ta_get_def)
    with p show False by (simp add: piecePlacementIndices_def)
  qed
  from item_of_table[OF wf f p] have "metaField ?T p 1 = piece_id (inPieces inp ! ?f)" by blast
  then show ?thesis using f by (simp add: firstItem_def mkItem_def)
qed

definition g_pair :: "nat \<times> int \<Rightarrow> int \<times> int" where
  "g_pair x = (int (fst x), snd x)"

lemma inj_g_pair: "inj g_pair"
  by (auto simp: inj_on_def g_pair_def prod_eq_iff)

lemma insort_key_map_mono:
  assumes "\<And>x y. k' (f x) \<le> k' (f y) \<longleftrightarrow> k x \<le> k y"
  shows "insort_key k' (f x) (map f xs) = map f (insort_key k x xs)"
  by (induction xs) (simp_all add: assms)

lemma sort_key_map_mono:
  assumes "\<And>x y. k' (f x) \<le> k' (f y) \<longleftrightarrow> k x \<le> (k y :: 'k :: linorder)"
  shows "sort_key (k' :: _ \<Rightarrow> 'j :: linorder) (map f xs) = map f (sort_key k xs)"
  by (induction xs) (simp_all add: insort_key_map_mono[of k' f k, OF assms])

text \<open>In the tables of a run, a valid packing and its export have the same signature.\<close>

lemma good_item_compiled:
  assumes wf: "wf_catalogue inp" and g: "good_solution (exactData inp w a) sol" and it: "it \<in> set sol"
  shows "\<exists>i pl. placement_of inp i pl
           \<and> placementTargets (exactData inp w a) (pIdx it) = map int (pl_targets pl)
           \<and> exportItem (exactData inp w a) it
               = \<lparr> out_piece = pl_pieceId pl,
                   out_anchor = Some (boardGrid inp ! pl_anchorIdx pl),
                   out_rot = int (pl_rot pl) \<rparr>
           \<and> pieceId it = pl_pieceId pl"
proof -
  let ?T = "exactData inp w a"
  from g it obtain i where i: "i \<in> set (pieceOrder ?T)"
    and p: "pIdx it \<in> set (piecePlacementIndices ?T i)"
    and form: "it = mkItem ?T (pIdx it)
               \<or> it = firstItem ?T (pIdx it) \<and> pIdx it \<in> set (piecePlacementIndices ?T (firstPiece ?T))"
    unfolding good_solution_def by blast
  have mk: "it = mkItem ?T (pIdx it)"
    using form firstItem_compiled[OF wf, of "pIdx it" w a] by auto
  have i': "i < length (inPieces inp)" using i by simp
  from item_of_table[OF wf i' p] obtain pl where pl: "placement_of inp i pl"
    and ts: "placementTargets ?T (pIdx it) = map int (pl_targets pl)"
    and ex: "exportItem ?T (mkItem ?T (pIdx it))
               = \<lparr> out_piece = pl_pieceId pl,
                   out_anchor = Some (boardGrid inp ! pl_anchorIdx pl),
                   out_rot = int (pl_rot pl) \<rparr>"
    by blast
  have "pieceId it = pl_pieceId pl"
  proof -
    have "out_piece (exportItem ?T (mkItem ?T (pIdx it))) = pl_pieceId pl" by (simp add: ex)
    then have "pieceId (mkItem ?T (pIdx it)) = pl_pieceId pl" by (simp add: exportItem_def)
    with mk show ?thesis by simp
  qed
  with pl ts ex mk show ?thesis by metis
qed

lemma good_item_replay:
  assumes wf: "wf_catalogue inp" and g: "good_solution (exactData inp w a) sol" and it: "it \<in> set sol"
  shows "placementTargets (exactData inp w a) (pIdx it)
           = map int (replayTargets inp (exportItem (exactData inp w a) it))"
    and "out_piece (exportItem (exactData inp w a) it) = pieceId it"
    and "legalPlacement inp (exportItem (exactData inp w a) it)"
proof -
  from good_item_compiled[OF assms] obtain i pl where pl: "placement_of inp i pl"
    and ts: "placementTargets (exactData inp w a) (pIdx it) = map int (pl_targets pl)"
    and ex: "exportItem (exactData inp w a) it
               = \<lparr> out_piece = pl_pieceId pl,
                   out_anchor = Some (boardGrid inp ! pl_anchorIdx pl),
                   out_rot = int (pl_rot pl) \<rparr>"
    and pid: "pieceId it = pl_pieceId pl"
    by blast
  have ids: "distinct (map piece_id (inPieces inp))" using wf by (simp add: wf_catalogue_def)
  have rp: "replayTargets inp (exportItem (exactData inp w a) it) = pl_targets pl"
    unfolding ex by (rule replay_placement[OF pl ids])
  show "placementTargets (exactData inp w a) (pIdx it)
           = map int (replayTargets inp (exportItem (exactData inp w a) it))"
    by (simp add: rp ts)
  show "out_piece (exportItem (exactData inp w a) it) = pieceId it"
    by (simp add: exportItem_def)
  have f: "findPiece (inPieces inp) (pl_pieceId pl) = Some (inPieces inp ! i)"
    using pl find_distinct_ids[OF ids, of i] by (simp add: placement_of_def)
  have i: "i < length (inPieces inp)" using pl by (simp add: placement_of_def)
  have f': "findPiece (inPieces inp) (piece_id (inPieces inp ! i)) = Some (inPieces inp ! i)"
    by (rule find_distinct_ids[OF ids i])
  show "legalPlacement inp (exportItem (exactData inp w a) it)"
    using pl placement_of_targets(1)[OF pl] rp
    by (simp add: legalPlacement_def ex f' placement_of_def)
qed

lemma signature_export:
  assumes wf: "wf_catalogue inp" and g: "good_solution (exactData inp w a) sol"
  shows "getSolutionCellSignature (exactData inp w a) sol
           = map g_pair (m_getSolutionCellSignature inp (exportSolution (exactData inp w a) sol))"
proof -
  let ?T = "exactData inp w a"
  have per: "map (\<lambda>c. (c, pieceId it)) (placementTargets ?T (pIdx it))
           = map g_pair (map (\<lambda>c. (c, out_piece (exportItem ?T it)))
                           (replayTargets inp (exportItem ?T it)))"
    if "it \<in> set sol" for it
    using good_item_replay(1,2)[OF wf g that] by (simp add: g_pair_def comp_def)
  have "concat (map (\<lambda>it. map (\<lambda>c. (c, pieceId it)) (placementTargets ?T (pIdx it))) sol)
      = concat (map (\<lambda>it. map g_pair (map (\<lambda>c. (c, out_piece (exportItem ?T it)))
                           (replayTargets inp (exportItem ?T it)))) sol)"
    using per by (intro arg_cong[of _ _ concat] map_cong refl) simp
  also have "\<dots> = map g_pair (concat (map (\<lambda>pl. map (\<lambda>c. (c, out_piece pl)) (replayTargets inp pl))
                                  (map (exportItem ?T) sol)))"
    by (simp add: map_concat comp_def)
  finally show ?thesis
    unfolding getSolutionCellSignature_def m_getSolutionCellSignature_def exportSolution_map
    by (simp add: sort_key_map_mono[of fst g_pair fst] g_pair_def)
qed


section \<open>The final solution list\<close>

text \<open>A packing: every placement legal, and no board cell covered twice.\<close>

lemma distinct_of_map: "distinct (map f xs) \<Longrightarrow> distinct xs"
  by (simp add: distinct_map)

definition validPacking :: "solver_input \<Rightarrow> out_item list \<Rightarrow> bool" where
  "validPacking inp sol =
     (list_all (legalPlacement inp) sol \<and> distinct (concat (map (replayTargets inp) sol)))"

lemma good_solution_export:
  assumes wf: "wf_catalogue inp" and g: "good_solution (exactData inp w a) sol"
  shows "validPacking inp (exportSolution (exactData inp w a) sol)"
proof -
  let ?T = "exactData inp w a"
  have "solTargets ?T sol
          = concat (map (\<lambda>it. map int (replayTargets inp (exportItem ?T it))) sol)"
    unfolding solTargets_def
    using good_item_replay(1)[OF wf g] by (intro arg_cong[of _ _ concat] map_cong refl) simp
  also have "\<dots> = map int (concat (map (replayTargets inp) (map (exportItem ?T) sol)))"
    by (simp add: map_concat comp_def)
  finally have "distinct (map int (concat (map (replayTargets inp) (map (exportItem ?T) sol))))"
    using g by (simp add: good_solution_def)
  then have "distinct (concat (map (replayTargets inp) (map (exportItem ?T) sol)))"
    by (rule distinct_of_map)
  moreover have "list_all (legalPlacement inp) (map (exportItem ?T) sol)"
    using good_item_replay(3)[OF wf g] by (simp add: list_all_iff)
  ultimately show ?thesis by (simp add: validPacking_def exportSolution_map)
qed

text \<open>What a worker of the run reports.\<close>

lemma package_message:
  assumes wf: "wf_catalogue inp" and T: "T \<in> set (exactPackages inp)"
  shows "distinct (map (m_getSolutionCellSignature inp) (msgSolutions (completeMessage T)))"
    and "\<forall>s \<in> set (msgSolutions (completeMessage T)). validPacking inp s"
proof -
  from exactPackages_member[OF T] obtain k a where Te: "T = exactData inp k a" by blast
  from package_rec_inv[OF wf T] obtain isols
    where tops: "topSolutions (solve T) = map (exportSolution T) isols"
      and d: "distinct (map (getSolutionCellSignature T) isols)"
      and g: "\<forall>sol \<in> set isols. good_solution T sol"
    unfolding rec_inv_def by blast
  have sig: "\<And>sol. sol \<in> set isols \<Longrightarrow> getSolutionCellSignature T sol
           = map g_pair (m_getSolutionCellSignature inp (exportSolution T sol))"
    using g signature_export[OF wf] unfolding Te by blast
  have "map (getSolutionCellSignature T) isols
          = map (map g_pair) (map (m_getSolutionCellSignature inp) (map (exportSolution T) isols))"
    using sig by (simp add: comp_def)
  with d have "distinct (map (map g_pair)
                 (map (m_getSolutionCellSignature inp) (map (exportSolution T) isols)))"
    by simp
  then have "distinct (map (m_getSolutionCellSignature inp) (map (exportSolution T) isols))"
    by (rule distinct_of_map)
  then show "distinct (map (m_getSolutionCellSignature inp) (msgSolutions (completeMessage T)))"
    by (simp add: completeMessage_def Let_def tops)
  show "\<forall>s \<in> set (msgSolutions (completeMessage T)). validPacking inp s"
    using g good_solution_export[OF wf] unfolding Te
    by (auto simp: completeMessage_def Let_def tops[unfolded Te])
qed

subsection \<open>Merging\<close>

lemma mergeSolutions_set:
  "set (mergeSolutions inp new existing tops) \<subseteq> set tops \<union> set new"
proof (induction new arbitrary: existing tops)
  case Nil
  show ?case by simp
next
  case (Cons s new)
  show ?case
  proof (cases "m_getSolutionCellSignature inp s \<in> existing")
    case True
    with Cons.IH[of existing tops] show ?thesis by (auto simp: Let_def)
  next
    case False
    with Cons.IH[of "insert (m_getSolutionCellSignature inp s) existing" "tops @ [s]"]
    show ?thesis by (auto simp: Let_def)
  qed
qed

lemma mergeSolutions_distinct:
  assumes "distinct (map (m_getSolutionCellSignature inp) tops)"
    and "existing = set (map (m_getSolutionCellSignature inp) tops)"
  shows "distinct (map (m_getSolutionCellSignature inp) (mergeSolutions inp new existing tops))"
  using assms
proof (induction new arbitrary: existing tops)
  case Nil
  then show ?case by simp
next
  case (Cons s new)
  show ?case
  proof (cases "m_getSolutionCellSignature inp s \<in> existing")
    case True
    with Cons show ?thesis by (simp add: Let_def)
  next
    case False
    have "distinct (map (m_getSolutionCellSignature inp) (tops @ [s]))"
      using Cons.prems False by simp
    moreover have "insert (m_getSolutionCellSignature inp s) existing
                     = set (map (m_getSolutionCellSignature inp) (tops @ [s]))"
      using Cons.prems by simp
    ultimately show ?thesis
      using False Cons.IH[of "tops @ [s]" "insert (m_getSolutionCellSignature inp s) existing"]
      by (simp add: Let_def)
  qed
qed

definition agg_inv :: "solver_input \<Rightarrow> main_state \<Rightarrow> bool" where
  "agg_inv inp ms =
     (distinct (map (m_getSolutionCellSignature inp) (m_topSolutions ms))
      \<and> (\<forall>s \<in> set (m_topSolutions ms). validPacking inp s))"

lemma onComplete_tops:
  "m_topSolutions (onComplete inp n ms msg) =
     (if m_bestCoverage ms < msgCoverage msg then msgSolutions msg
      else if msgCoverage msg = m_bestCoverage ms
           then mergeSolutions inp (msgSolutions msg)
                  (set (map (m_getSolutionCellSignature inp) (m_topSolutions ms)))
                  (m_topSolutions ms)
           else m_topSolutions ms)"
  by (simp add: onComplete_def Let_def)

lemma onComplete_best:
  "m_bestCoverage (onComplete inp n ms msg) = max (m_bestCoverage ms) (msgCoverage msg)"
  by (simp add: onComplete_def Let_def)

lemma agg_inv_step:
  assumes "agg_inv inp ms"
    and "distinct (map (m_getSolutionCellSignature inp) (msgSolutions msg))"
    and "\<forall>s \<in> set (msgSolutions msg). validPacking inp s"
  shows "agg_inv inp (onComplete inp n ms msg)"
proof -
  have d: "distinct (map (m_getSolutionCellSignature inp)
             (mergeSolutions inp (msgSolutions msg)
                (set (map (m_getSolutionCellSignature inp) (m_topSolutions ms)))
                (m_topSolutions ms)))"
    using assms(1) by (intro mergeSolutions_distinct) (simp_all add: agg_inv_def)
  have v: "\<forall>s \<in> set (mergeSolutions inp (msgSolutions msg)
                (set (map (m_getSolutionCellSignature inp) (m_topSolutions ms)))
                (m_topSolutions ms)). validPacking inp s"
    using assms(1,3) mergeSolutions_set[of inp "msgSolutions msg" _ "m_topSolutions ms"]
    by (auto simp: agg_inv_def)
  show ?thesis
    using assms d v by (simp add: agg_inv_def onComplete_tops)
qed

lemma agg_inv_fold:
  assumes "agg_inv inp ms"
    and "\<forall>msg \<in> set msgs. distinct (map (m_getSolutionCellSignature inp) (msgSolutions msg))
            \<and> (\<forall>s \<in> set (msgSolutions msg). validPacking inp s)"
  shows "agg_inv inp (foldl (onComplete inp n) ms msgs)"
  using assms
proof (induction msgs arbitrary: ms)
  case Nil
  then show ?case by simp
next
  case (Cons m msgs)
  have "agg_inv inp (onComplete inp n ms m)"
    using Cons.prems by (intro agg_inv_step) simp_all
  then show ?case using Cons.prems by (simp add: Cons.IH)
qed

text \<open>Every arrival is the number of a worker that was created.\<close>

definition exact_arrivals :: "solver_input \<Rightarrow> nat list \<Rightarrow> bool" where
  "exact_arrivals inp arrival = list_all (\<lambda>i. i < length (exactPackages inp)) arrival"

lemma run_agg_inv:
  assumes wf: "wf_catalogue inp" and arr: "exact_arrivals inp arrival"
  shows "agg_inv inp (exactRun inp arrival)"
  unfolding exactRun_def Let_def
proof (rule agg_inv_fold)
  show "agg_inv inp initialMain" by (simp add: agg_inv_def initialMain_def)
  show "\<forall>msg \<in> set (map (\<lambda>i. completeMessage (exactPackages inp ! i)) arrival).
          distinct (map (m_getSolutionCellSignature inp) (msgSolutions msg))
          \<and> (\<forall>s \<in> set (msgSolutions msg). validPacking inp s)"
  proof
    fix msg assume "msg \<in> set (map (\<lambda>i. completeMessage (exactPackages inp ! i)) arrival)"
    then obtain i where i: "i \<in> set arrival" and m: "msg = completeMessage (exactPackages inp ! i)"
      by auto
    from i arr have "exactPackages inp ! i \<in> set (exactPackages inp)"
      by (simp add: exact_arrivals_def list_all_iff)
    from package_message[OF wf this] show
      "distinct (map (m_getSolutionCellSignature inp) (msgSolutions msg))
          \<and> (\<forall>s \<in> set (msgSolutions msg). validPacking inp s)"
      unfolding m by blast
  qed
qed

lemma sort_key_sorted_id: "sort_key k (sort_key k xs) = sort_key k xs"
  by (rule sort_key_id_if_sorted) simp

lemma distinct_concat_disjoint:
  assumes "distinct (concat xss)" "i < length xss" "j < length xss" "i < j"
  shows "set (xss ! i) \<inter> set (xss ! j) = {}"
  using assms
proof (induction xss arbitrary: i j)
  case Nil
  then show ?case by simp
next
  case (Cons xs xss)
  from Cons.prems obtain j' where j: "j = Suc j'" by (cases j) auto
  show ?case
  proof (cases i)
    case 0
    have "xss ! j' \<in> set xss" using Cons.prems j by simp
    then have "set (xss ! j') \<subseteq> \<Union> (set ` set xss)" by blast
    with 0 j Cons.prems(1) show ?thesis by auto
  next
    case (Suc i')
    with j Cons.prems Cons.IH[of i' j'] show ?thesis by simp
  qed
qed

section \<open>The best coverage a worker reports\<close>

subsection \<open>The search tree without pruning\<close>

text \<open>
  The largest coverage of a node of the search tree below a node with remaining pieces
  \<open>rem\<close>, coverage \<open>cov\<close> and occupancy \<open>occ\<close>: the tree that \<open>backtrack\<close> walks when the
  bound never prunes.  A node at or above the board size has no children.
\<close>

function maxCov :: "worker_data \<Rightarrow> nat list \<Rightarrow> int \<Rightarrow> int list \<Rightarrow> int" where
  "maxCov T rem cov occ =
     (if boardSize T \<le> cov \<or> rem = [] then cov
      else case selectPiece T occ rem of
             None \<Rightarrow> cov
           | Some ri \<Rightarrow>
               foldl max cov
                 (map (\<lambda>p. maxCov T (dropAt ri rem) (cov + metaField T p 5)
                              (markCells occ (placementTargets T p) (to_int16 (int (rem ! ri)))))
                    (filter (placementFree T occ) (piecePlacementIndices T (rem ! ri)))))"
  by pat_completeness auto
termination
  apply (relation "measure (\<lambda>(T, rem, cov, occ). length rem)")
   apply simp
  subgoal for T rem cov occ x2 x
    using length_dropAt[OF selectPiece_bound, of T occ rem x2] by simp
  done

declare maxCov.simps [simp del]

definition childMax :: "worker_data \<Rightarrow> nat list \<Rightarrow> nat \<Rightarrow> int \<Rightarrow> int list \<Rightarrow> int \<Rightarrow> int" where
  "childMax T rem ri cov occ p =
     maxCov T (dropAt ri rem) (cov + metaField T p 5)
       (markCells occ (placementTargets T p) (to_int16 (int (rem ! ri))))"

lemma maxCov_unfold:
  "maxCov T rem cov occ =
     (if boardSize T \<le> cov \<or> rem = [] then cov
      else case selectPiece T occ rem of
             None \<Rightarrow> cov
           | Some ri \<Rightarrow>
               foldl max cov (map (childMax T rem ri cov occ)
                 (filter (placementFree T occ) (piecePlacementIndices T (rem ! ri)))))"
  by (subst maxCov.simps) (simp add: childMax_def[abs_def] split: option.split)

lemma foldl_max_Max: "foldl max (b :: int) xs = Max (insert b (set xs))"
proof (induction xs arbitrary: b)
  case Nil
  show ?case by simp
next
  case (Cons x xs)
  have "Max (insert (max b x) (set xs)) = Max (insert b (insert x (set xs)))"
    by (cases "set xs = {}") (simp_all add: max.assoc)
  with Cons show ?case by simp
qed

lemma foldl_max_ge: "(b :: int) \<le> foldl max b xs"
  by (simp add: foldl_max_Max)

lemma foldl_max_mono: "(a :: int) \<le> b \<Longrightarrow> foldl max a xs \<le> foldl max b xs"
  by (induction xs arbitrary: a b) (simp_all add: max.mono)

lemma foldl_max_max: "foldl max (max (a :: int) b) xs = max a (foldl max b xs)"
  by (induction xs arbitrary: b) (simp_all add: max.assoc)

lemma foldl_max_le: "(b :: int) \<le> m \<Longrightarrow> \<forall>x \<in> set xs. x \<le> m \<Longrightarrow> foldl max b xs \<le> m"
  by (simp add: foldl_max_Max)

lemma maxCov_ge: "cov \<le> maxCov T rem cov occ"
  by (subst maxCov_unfold) (simp add: foldl_max_ge split: option.split)

subsection \<open>Counting occupied cells\<close>

definition occCount :: "int list \<Rightarrow> int" where
  "occCount occ = int (length (filter (\<lambda>x. x \<noteq> - 1) occ))"

lemma filter_update_count:
  "i < length xs \<Longrightarrow> \<not> P (xs ! i) \<Longrightarrow> P v
     \<Longrightarrow> length (filter P (xs[i := v])) = Suc (length (filter P xs))"
proof (induction xs arbitrary: i)
  case Nil
  then show ?case by simp
next
  case (Cons x xs)
  then show ?case by (cases i) simp_all
qed

lemma occCount_le: "occCount occ \<le> int (length occ)"
  by (simp add: occCount_def)

lemma occCount_mark:
  assumes "distinct cs" "\<forall>c \<in> set cs. ta_get occ c = Some (- 1)" "v \<noteq> - 1"
  shows "occCount (markCells occ cs v) = occCount occ + int (length cs)"
  using assms
proof (induction cs arbitrary: occ)
  case Nil
  show ?case by (simp add: markCells_def)
next
  case (Cons c cs)
  have c: "ta_get occ c = Some (- 1)" using Cons.prems by simp
  then have r: "0 \<le> c" "c < int (length occ)" using ta_get_Some_range by blast+
  then have n: "nat c < length occ" "occ ! nat c = - 1" using c by (simp_all add: ta_get_def)
  have one: "occCount (ta_set occ c v) = occCount occ + 1"
    using filter_update_count[of "nat c" occ "\<lambda>x. x \<noteq> - 1" v] r n Cons.prems(3)
    by (simp add: occCount_def ta_set_def)
  have rest: "\<forall>c' \<in> set cs. ta_get (ta_set occ c v) c' = Some (- 1)"
    using Cons.prems by (auto simp: ta_get_ta_set)
  have "occCount (markCells (ta_set occ c v) cs v) = occCount (ta_set occ c v) + int (length cs)"
    using Cons.prems rest by (intro Cons.IH) simp_all
  with one show ?case by (simp add: markCells_Cons)
qed

subsection \<open>Sizes\<close>

definition sumSizes :: "worker_data \<Rightarrow> nat list \<Rightarrow> int" where
  "sumSizes T rem = sum_list (map (pieceSize T) rem)"

lemma foldl_add_sum: "foldl (\<lambda>s i. s + f i) (a :: int) xs = a + sum_list (map f xs)"
  by (induction xs arbitrary: a) simp_all

lemma sumRemainingSizes_eq: "sumRemainingSizes T rem = sumSizes T rem"
  by (simp add: sumRemainingSizes_def sumSizes_def foldl_add_sum)

lemma sumSizes_dropAt:
  "ri < length rem \<Longrightarrow> sumSizes T (dropAt ri rem) = sumSizes T rem - pieceSize T (rem ! ri)"
proof -
  assume ri: "ri < length rem"
  have "rem = take ri rem @ rem ! ri # drop (Suc ri) rem"
    using ri by (simp add: id_take_nth_drop)
  then have "sumSizes T rem = sumSizes T (take ri rem) + pieceSize T (rem ! ri)
                               + sumSizes T (drop (Suc ri) rem)"
    unfolding sumSizes_def by (metis (no_types) map_append sum_list.append list.simps(9) sum_list.Cons add.assoc)
  then show ?thesis by (simp add: dropAt_def sumSizes_def)
qed

lemma sumSizes_nonneg: "\<forall>i \<in> set rem. 0 \<le> pieceSize T i \<Longrightarrow> 0 \<le> sumSizes T rem"
  unfolding sumSizes_def by (induction rem) simp_all

subsection \<open>Bounds on the unpruned maximum\<close>

lemma good_free_marks:
  assumes ok: "piece_ok T i" and p: "p \<in> set (piecePlacementIndices T i)"
    and free: "placementFree T occ p"
  shows "occCount (markCells occ (placementTargets T p) (to_int16 (int i)))
           = occCount occ + metaField T p 5"
    and "metaField T p 5 = pieceSize T i"
proof -
  have g: "good_placement T i p" by (rule piece_ok_placement[OF ok p])
  have v: "to_int16 (int i) \<noteq> - 1" using ok by (intro to_int16_piece) (simp add: piece_ok_def)
  have "occCount (markCells occ (placementTargets T p) (to_int16 (int i)))
          = occCount occ + int (length (placementTargets T p))"
    using g free v by (intro occCount_mark) (simp_all add: good_placement_def placementFree_iff)
  then show "occCount (markCells occ (placementTargets T p) (to_int16 (int i)))
           = occCount occ + metaField T p 5"
    using g by (simp add: good_placement_def)
  show "metaField T p 5 = pieceSize T i" using g by (simp add: good_placement_def)
qed

lemma pieces_dropAt: "\<forall>i \<in> set rem. piece_ok T i \<Longrightarrow> \<forall>i \<in> set (dropAt ri rem). piece_ok T i"
  using set_dropAt[of ri rem] by blast

lemma maxCov_le_sum:
  "\<forall>i \<in> set rem. piece_ok T i \<Longrightarrow> maxCov T rem cov occ \<le> cov + sumSizes T rem"
proof (induction T rem cov occ rule: maxCov.induct)
  case (1 T rem cov occ)
  have nn: "0 \<le> sumSizes T rem"
    using "1.prems" by (intro sumSizes_nonneg) (simp add: piece_ok_def)
  show ?case
  proof (cases "boardSize T \<le> cov \<or> rem = []")
    case True
    then show ?thesis using nn by (subst maxCov_unfold) auto
  next
    case False
    show ?thesis
    proof (cases "selectPiece T occ rem")
      case None
      with False nn show ?thesis by (subst maxCov_unfold) simp
    next
      case (Some ri)
      have ri: "ri < length rem" using Some by (rule selectPiece_bound)
      let ?S = "filter (placementFree T occ) (piecePlacementIndices T (rem ! ri))"
      have each: "childMax T rem ri cov occ p \<le> cov + sumSizes T rem" if p: "p \<in> set ?S" for p
      proof -
        have ok: "piece_ok T (rem ! ri)" using "1.prems" ri by simp
        have m: "metaField T p 5 = pieceSize T (rem ! ri)"
          using good_free_marks(2)[OF ok, of p occ] p by simp
        have "childMax T rem ri cov occ p \<le> (cov + metaField T p 5) + sumSizes T (dropAt ri rem)"
          unfolding childMax_def
          using False Some p pieces_dropAt[OF "1.prems"] by (intro "1.IH") simp_all
        then show ?thesis using m by (simp add: sumSizes_dropAt[OF ri])
      qed
      have "foldl max cov (map (childMax T rem ri cov occ) ?S) \<le> cov + sumSizes T rem"
        using nn each by (intro foldl_max_le) auto
      with False Some show ?thesis by (subst maxCov_unfold) simp
    qed
  qed
qed

lemma maxCov_le_board:
  "\<forall>i \<in> set rem. piece_ok T i \<Longrightarrow> cov = occCount occ \<Longrightarrow> int (length occ) = boardSize T
     \<Longrightarrow> maxCov T rem cov occ \<le> boardSize T"
proof (induction T rem cov occ rule: maxCov.induct)
  case (1 T rem cov occ)
  have c: "cov \<le> boardSize T" using "1.prems" occCount_le[of occ] by simp
  show ?case
  proof (cases "boardSize T \<le> cov \<or> rem = []")
    case True
    then show ?thesis using c by (subst maxCov_unfold) auto
  next
    case False
    show ?thesis
    proof (cases "selectPiece T occ rem")
      case None
      with False c show ?thesis by (subst maxCov_unfold) simp
    next
      case (Some ri)
      have ri: "ri < length rem" using Some by (rule selectPiece_bound)
      let ?S = "filter (placementFree T occ) (piecePlacementIndices T (rem ! ri))"
      have each: "childMax T rem ri cov occ p \<le> boardSize T" if p: "p \<in> set ?S" for p
      proof -
        have ok: "piece_ok T (rem ! ri)" using "1.prems" ri by simp
        have m: "occCount (markCells occ (placementTargets T p) (to_int16 (int (rem ! ri))))
                   = occCount occ + metaField T p 5"
          using good_free_marks(1)[OF ok, of p occ] p by simp
        show ?thesis
          unfolding childMax_def
          using False Some p pieces_dropAt[OF "1.prems"(1)] m "1.prems"(2,3)
          by (intro "1.IH") simp_all
      qed
      have "foldl max cov (map (childMax T rem ri cov occ) ?S) \<le> boardSize T"
        using c each by (intro foldl_max_le) auto
      with False Some show ?thesis by (subst maxCov_unfold) simp
    qed
  qed
qed

subsection \<open>The best coverage after a call\<close>

definition cov_pre :: "worker_data \<Rightarrow> nat list \<Rightarrow> int \<Rightarrow> int \<Rightarrow> wstate \<Rightarrow> bool" where
  "cov_pre T rem rs cov st =
     (frame_ok rem st \<and> \<not> shouldStop st \<and> int (length (occupancy st)) = boardSize T
      \<and> (\<forall>i \<in> set rem. piece_ok T i) \<and> rs = sumSizes T rem \<and> cov = occCount (occupancy st))"

lemma cov_pre_core:
  "core a = core b \<Longrightarrow> shouldStop a = shouldStop b \<Longrightarrow> cov_pre T rem rs cov a = cov_pre T rem rs cov b"
  using frame_ok_core[of a b rem] core_fields(1)[of a b] by (simp add: cov_pre_def)

lemma node_best: "bestCoverage (nodeState T cur cov st0) = max (bestCoverage st0) cov"
  by (simp add: nodeState_def recordSolution_def Let_def)

lemma node_occ: "occupancy (nodeState T cur cov st0) = occupancy st0"
  using core_fields(1)[OF nodeState_core[of T cur cov st0]] .

lemma cov_pre_child:
  assumes pre: "cov_pre T rem rs cov st" and ri: "ri < length rem"
    and free: "placementFree T (occupancy st) p"
    and p: "p \<in> set (piecePlacementIndices T (rem ! ri))"
  shows "cov_pre T (dropAt ri rem) (rs - pieceSize T (rem ! ri)) (cov + metaField T p 5)
           (applyPlacementByIndex T p (int (rem ! ri)) st)"
proof -
  have ok: "piece_ok T (rem ! ri)" using pre ri by (simp add: cov_pre_def)
  have "frame_ok (dropAt ri rem) (applyPlacementByIndex T p (int (rem ! ri)) st)"
    using pre ri free by (intro frame_ok_apply) (simp_all add: cov_pre_def)
  moreover have "\<forall>i \<in> set (dropAt ri rem). piece_ok T i"
    using pre by (intro pieces_dropAt) (simp add: cov_pre_def)
  moreover have "rs - pieceSize T (rem ! ri) = sumSizes T (dropAt ri rem)"
    using pre by (simp add: sumSizes_dropAt[OF ri] cov_pre_def)
  moreover have "cov + metaField T p 5
      = occCount (occupancy (applyPlacementByIndex T p (int (rem ! ri)) st))"
    using good_free_marks(1)[OF ok p free] pre by (simp add: apply_fields cov_pre_def)
  ultimately show ?thesis using pre by (simp add: cov_pre_def apply_fields)
qed

lemma best_after:
  shows "cov_pre T rem rs cov st0 \<Longrightarrow>
           bestCoverage (snd (backtrack T rem rs cur cov st0))
             = max (bestCoverage st0) (maxCov T rem cov (occupancy st0))
           \<and> (fst (backtrack T rem rs cur cov st0)
                \<longrightarrow> boardSize T \<le> bestCoverage (snd (backtrack T rem rs cur cov st0)))"
    and "cov_pre T rem rs cov st \<Longrightarrow> ri < length rem
           \<Longrightarrow> \<forall>v \<in> set vs. placementFree T (occupancy st) (fst v)
                  \<and> fst v \<in> set (piecePlacementIndices T (rem ! ri))
           \<Longrightarrow> bestCoverage st \<le> bestCoverage (snd (tryPlacements T rem ri rs cur cov vs st))
             \<and> bestCoverage (snd (tryPlacements T rem ri rs cur cov vs st))
                 \<le> foldl max (bestCoverage st)
                      (map (\<lambda>v. childMax T rem ri cov (occupancy st) (fst v)) vs)
             \<and> (\<not> fst (tryPlacements T rem ri rs cur cov vs st)
                  \<longrightarrow> bestCoverage (snd (tryPlacements T rem ri rs cur cov vs st))
                        = foldl max (bestCoverage st)
                            (map (\<lambda>v. childMax T rem ri cov (occupancy st) (fst v)) vs))
             \<and> (fst (tryPlacements T rem ri rs cur cov vs st)
                  \<longrightarrow> boardSize T \<le> bestCoverage (snd (tryPlacements T rem ri rs cur cov vs st)))"
proof (induction T rem rs cur cov st0 and T rem ri rs cur cov vs st rule: backtrack_induct)
  case (node T rem rs cur cov st0)
  let ?x = "nodeState T cur cov st0"
  let ?occ = "occupancy st0"
  let ?b0 = "bestCoverage st0"
  note pre = node.prems
  have ns: "\<not> shouldStop st0" using pre by (simp add: cov_pre_def)
  have prex: "cov_pre T rem rs cov ?x"
    using pre cov_pre_core[of ?x st0 T rem rs cov] by simp
  have pieces: "\<forall>i \<in> set rem. piece_ok T i" using pre by (simp add: cov_pre_def)
  have ge: "cov \<le> maxCov T rem cov ?occ" by (rule maxCov_ge)
  show ?case
  proof (cases "boardSize T \<le> cov")
    case True
    have "maxCov T rem cov ?occ = cov" using True by (subst maxCov_unfold) simp
    with True ns show ?thesis by (simp add: backtrack_unfold node_best)
  next
    case nb: False
    show ?thesis
    proof (cases "cov + rs \<le> bestCoverage ?x")
      case True
      have "maxCov T rem cov ?occ \<le> cov + rs"
        using maxCov_le_sum[OF pieces, of cov ?occ] pre by (simp add: cov_pre_def)
      with True ge have "max ?b0 (maxCov T rem cov ?occ) = max ?b0 cov"
        by (simp add: node_best)
      with True nb ns show ?thesis by (simp add: backtrack_unfold node_best)
    next
      case np: False
      show ?thesis
      proof (cases "rem = []")
        case True
        have "maxCov T rem cov ?occ = cov" using True by (subst maxCov_unfold) simp
        with True nb np ns show ?thesis by (simp add: backtrack_unfold node_best)
      next
        case ne: False
        show ?thesis
        proof (cases "selectPiece T ?occ rem")
          case None
          have "maxCov T rem cov ?occ = cov" using None nb ne by (subst maxCov_unfold) simp
          with None nb np ne ns show ?thesis by (simp add: backtrack_unfold node_best node_occ)
        next
          case (Some ri)
          have ri: "ri < length rem" using Some by (rule selectPiece_bound)
          let ?valid = "validPlacements T ?occ (rem ! ri)"
          let ?S = "filter (placementFree T ?occ) (piecePlacementIndices T (rem ! ri))"
          let ?f = "childMax T rem ri cov ?occ"
          have mc: "maxCov T rem cov ?occ = foldl max cov (map ?f ?S)"
            using Some nb ne by (subst maxCov_unfold) simp
          show ?thesis
          proof (cases "?valid = []")
            case True
            then have "?S = []" using validPlacements_fst[of T ?occ "rem ! ri"] by simp
            with mc have "maxCov T rem cov ?occ = cov" by simp
            with True Some nb np ne ns show ?thesis
              by (simp add: backtrack_unfold node_best node_occ)
          next
            case nv: False
            let ?vs = "sortByAdj ?valid"
            let ?r = "tryPlacements T rem ri rs cur cov ?vs ?x"
            have eq: "backtrack T rem rs cur cov st0 = ?r"
              using Some nb np ne ns nv by (simp add: backtrack_unfold node_occ)
            have mem: "\<forall>v \<in> set ?vs. placementFree T (occupancy ?x) (fst v)
                  \<and> fst v \<in> set (piecePlacementIndices T (rem ! ri))"
              using valid_member[of _ T ?occ "rem ! ri"] by (simp add: node_occ)
            have ih: "bestCoverage ?x \<le> bestCoverage (snd ?r)
               \<and> bestCoverage (snd ?r) \<le> foldl max (bestCoverage ?x)
                      (map (\<lambda>v. childMax T rem ri cov ?occ (fst v)) ?vs)
               \<and> (\<not> fst ?r \<longrightarrow> bestCoverage (snd ?r) = foldl max (bestCoverage ?x)
                      (map (\<lambda>v. childMax T rem ri cov ?occ (fst v)) ?vs))
               \<and> (fst ?r \<longrightarrow> boardSize T \<le> bestCoverage (snd ?r))"
              using ns nb np ne Some nv prex ri mem
              by (intro node.IH[unfolded node_occ]) (simp_all add: node_occ)
            have sets: "set (map (\<lambda>v. ?f (fst v)) ?vs) = set (map ?f ?S)"
            proof -
              have "set (map (\<lambda>v. ?f (fst v)) ?vs) = ?f ` set (map fst ?valid)"
                by (simp add: image_image)
              then show ?thesis by (simp add: validPlacements_fst)
            qed
            have full: "foldl max (bestCoverage ?x) (map (\<lambda>v. ?f (fst v)) ?vs)
                          = max ?b0 (maxCov T rem cov ?occ)"
            proof -
              have "foldl max (max ?b0 cov) (map (\<lambda>v. ?f (fst v)) ?vs)
                      = max ?b0 (foldl max cov (map (\<lambda>v. ?f (fst v)) ?vs))"
                by (rule foldl_max_max)
              moreover have "foldl max cov (map (\<lambda>v. ?f (fst v)) ?vs) = foldl max cov (map ?f ?S)"
                unfolding foldl_max_Max sets ..
              ultimately show ?thesis by (simp add: node_best mc)
            qed
            have le_board: "maxCov T rem cov ?occ \<le> boardSize T"
              using pre by (intro maxCov_le_board) (simp_all add: cov_pre_def)
            have b0: "?b0 \<le> bestCoverage (snd ?r)" using ih by (simp add: node_best)
            have "bestCoverage (snd ?r) = max ?b0 (maxCov T rem cov ?occ)"
            proof (cases "fst ?r")
              case True
              with ih have "boardSize T \<le> bestCoverage (snd ?r)" by simp
              with le_board b0 have "max ?b0 (maxCov T rem cov ?occ) \<le> bestCoverage (snd ?r)"
                by simp
              moreover have "bestCoverage (snd ?r) \<le> max ?b0 (maxCov T rem cov ?occ)"
                using ih full by (simp add: node_occ)
              ultimately show ?thesis by (rule order.antisym[rotated])
            next
              case False
              with ih full show ?thesis by (simp add: node_occ)
            qed
            with ih show ?thesis by (simp add: eq)
          qed
        qed
      qed
    qed
  qed
next
  case (nil T rem ri rs cur cov st)
  show ?case by simp
next
  case (cons T rem ri rs cur cov v vs st)
  note pre = cons.prems(1)
  have ns: "\<not> shouldStop st" using pre by (simp add: cov_pre_def)
  let ?p = "fst v"
  let ?st1 = "applyPlacementByIndex T ?p (int (rem ! ri)) st"
  let ?c = "childCall T rem ri rs cur cov ?p st"
  let ?st3 = "undoPlacementByIndex T ?p (snd ?c)"
  let ?f = "\<lambda>v. childMax T rem ri cov (occupancy st) (fst v)"
  let ?b = "bestCoverage st"
  have free: "placementFree T (occupancy st) ?p"
    and p: "?p \<in> set (piecePlacementIndices T (rem ! ri))" using cons.prems(3) by simp_all
  have pre1: "cov_pre T (dropAt ri rem) (rs - pieceSize T (rem ! ri)) (cov + metaField T ?p 5) ?st1"
    by (rule cov_pre_child[OF pre cons.prems(2) free p])
  have b1: "bestCoverage ?st1 = ?b" using rest_fields(3)[OF apply_rest[of T ?p "int (rem ! ri)" st]] .
  note ih1 = cons.IH(1)[OF ns pre1]
  have child: "bestCoverage (snd ?c) = max ?b (?f v)"
    using conjunct1[OF ih1] b1 by (simp add: childCall_def childMax_def apply_fields)
  have child_stop: "fst ?c \<longrightarrow> boardSize T \<le> bestCoverage (snd ?c)"
    using conjunct2[OF ih1] by (simp add: childCall_def)
  have b3: "bestCoverage ?st3 = bestCoverage (snd ?c)"
    using rest_fields(3)[OF undo_rest[of T ?p "snd ?c"]] .
  have fok: "frame_ok rem st" using pre by (simp add: cov_pre_def)
  have f1: "frame_ok (dropAt ri rem) ?st1"
    by (rule frame_ok_apply[OF fok cons.prems(2) free])
  have c: "core (snd ?c) = core ?st1"
    using restore(1)[OF f1] by (simp add: childCall_def)
  have c3: "core ?st3 = core st"
    using fok by (intro undo_apply_core[OF free _ _ _ _ c]) (simp_all add: frame_ok_def)
  have s3: "shouldStop ?st3 = shouldStop st"
    using stop_preserved(1)[of T "dropAt ri rem" "rs - pieceSize T (rem ! ri)"
        "cur @ [mkItem T ?p]" "cov + metaField T ?p 5" ?st1]
    by (simp add: childCall_def)
  show ?case
  proof (cases "fst ?c")
    case True
    have r: "tryPlacements T rem ri rs cur cov (v # vs) st = (True, ?st3)"
      using True ns by (simp add: tryPlacements_unfold)
    have "max ?b (?f v) \<le> foldl max (max ?b (?f v)) (map ?f vs)" by (rule foldl_max_ge)
    with True child child_stop b3 show ?thesis by (simp add: r)
  next
    case f: False
    let ?r = "tryPlacements T rem ri rs cur cov vs ?st3"
    have r: "tryPlacements T rem ri rs cur cov (v # vs) st = ?r"
      using f ns by (simp add: tryPlacements_unfold)
    have pre3: "cov_pre T rem rs cov ?st3"
      using pre cov_pre_core[OF c3 s3, of T rem rs cov] by simp
    have o3: "occupancy ?st3 = occupancy st" by (rule core_fields(1)[OF c3])
    have ih: "bestCoverage ?st3 \<le> bestCoverage (snd ?r)
             \<and> bestCoverage (snd ?r)
                 \<le> foldl max (bestCoverage ?st3)
                      (map (\<lambda>v. childMax T rem ri cov (occupancy ?st3) (fst v)) vs)
             \<and> (\<not> fst ?r \<longrightarrow> bestCoverage (snd ?r)
                        = foldl max (bestCoverage ?st3)
                            (map (\<lambda>v. childMax T rem ri cov (occupancy ?st3) (fst v)) vs))
             \<and> (fst ?r \<longrightarrow> boardSize T \<le> bestCoverage (snd ?r))"
      using cons.prems(2,3) pre3 by (intro cons.IH(2)[OF ns f]) (simp_all add: o3)
    have "?b \<le> bestCoverage ?st3" using b3 child by simp
    with ih show ?thesis by (simp add: r o3 b3 child)
  qed
qed

subsection \<open>The best coverage of a worker\<close>

text \<open>
  The unpruned maximum below the first piece placed by placement \<open>p\<close> on the empty board.
\<close>

definition topMax :: "worker_data \<Rightarrow> int \<Rightarrow> int" where
  "topMax T p =
     maxCov T (drop 1 (pieceOrder T)) (metaField T p 5)
       (markCells (replicate (nat (boardSize T)) (- 1)) (placementTargets T p)
          (to_int16 (int (firstPiece T))))"

lemma occCount_replicate [simp]: "occCount (replicate n (- 1)) = 0"
  by (simp add: occCount_def)

lemma cov_pre_clean:
  assumes wf: "wf_tables T" and cl: "clean T st" and ns: "\<not> shouldStop st"
  shows "cov_pre T (pieceOrder T) (sumSizes T (pieceOrder T)) 0 st"
proof -
  have "frame_ok (pieceOrder T) st"
    using search_pre_clean[OF wf cl] by (simp add: search_pre_def)
  then show ?thesis
    using wf cl ns by (simp add: cov_pre_def clean_def wf_tables_def list_all_iff)
qed

lemma solveStep_stop [simp]: "shouldStop (solveStep T p st) = shouldStop st"
  by (simp add: solveStep_def stop_preserved(1))

lemma solveStep_best:
  assumes wf: "wf_tables T" and ne: "pieceOrder T \<noteq> []"
    and p: "p \<in> set (piecePlacementIndices T (firstPiece T))"
    and cl: "clean T st" and ns: "\<not> shouldStop st"
  shows "bestCoverage (solveStep T p st) = max (bestCoverage st) (topMax T p)"
proof -
  let ?f = "firstPiece T"
  let ?rem = "drop 1 (pieceOrder T)"
  let ?st1 = "applyPlacementByIndex T p (int ?f) st"
  let ?bt = "backtrack T ?rem (sumRemainingSizes T ?rem) [firstItem T p] (metaField T p 5) ?st1"
  let ?st3 = "undoPlacementByIndex T p (snd ?bt)"
  have f0: "?f = pieceOrder T ! 0" by (rule firstPiece_nth[OF ne])
  have l0: "0 < length (pieceOrder T)" using ne by simp
  have fm: "?f \<in> set (pieceOrder T)" using f0 ne by simp
  have ok: "piece_ok T ?f" using wf fm by (simp add: wf_tables_def list_all_iff)
  have gp: "good_placement T ?f p" by (rule piece_ok_placement[OF ok p])
  have b: "0 \<le> boardSize T" using wf by (simp add: wf_tables_def)
  have free: "placementFree T (occupancy st) p" by (rule free_clean[OF cl gp b])
  have pre0: "cov_pre T (pieceOrder T) (sumSizes T (pieceOrder T)) 0 st"
    by (rule cov_pre_clean[OF wf cl ns])
  have "cov_pre T (dropAt 0 (pieceOrder T)) (sumSizes T (pieceOrder T) - pieceSize T (pieceOrder T ! 0))
          (0 + metaField T p 5) (applyPlacementByIndex T p (int (pieceOrder T ! 0)) st)"
    using p by (intro cov_pre_child[OF pre0 l0 free]) (simp add: f0)
  then have pre1: "cov_pre T ?rem (sumRemainingSizes T ?rem) (metaField T p 5) ?st1"
    by (simp add: f0[symmetric] dropAt_0 cov_pre_def sumRemainingSizes_eq)
  have o1: "occupancy ?st1 = markCells (replicate (nat (boardSize T)) (- 1)) (placementTargets T p)
              (to_int16 (int ?f))"
    using cl by (simp add: apply_fields clean_def)
  have b1: "bestCoverage ?st1 = bestCoverage st"
    using rest_fields(3)[OF apply_rest[of T p "int ?f" st]] .
  have "bestCoverage (snd ?bt) = max (bestCoverage ?st1) (maxCov T ?rem (metaField T p 5) (occupancy ?st1))"
    using conjunct1[OF best_after(1)[OF pre1, of "[firstItem T p]"]] .
  then have bb: "bestCoverage (snd ?bt) = max (bestCoverage st) (topMax T p)"
    by (simp add: b1 o1 topMax_def)
  have b3: "bestCoverage ?st3 = bestCoverage (snd ?bt)"
    using rest_fields(3)[OF undo_rest[of T p "snd ?bt"]] .
  have "bestCoverage (solveStep T p st) = bestCoverage ?st3"
    by (simp add: solveStep_def)
  with b3 bb show ?thesis by simp
qed

lemma solveLoop_best:
  assumes "wf_tables T" "wf_assigned T ps" "clean T st" "rec_inv T st" "\<not> shouldStop st"
  shows "bestCoverage (solveLoop T ps st) = foldl max (bestCoverage st) (map (topMax T) ps)"
  using assms
proof (induction ps arbitrary: st)
  case Nil
  then show ?case by simp
next
  case (Cons p ps)
  have ne: "pieceOrder T \<noteq> []" and p: "p \<in> set (piecePlacementIndices T (firstPiece T))"
    and rest: "wf_assigned T ps"
    using Cons.prems(2) by (auto simp: wf_assigned_def)
  have inv: "clean T (solveStep T p st)" "rec_inv T (solveStep T p st)"
    using solveStep_inv[OF Cons.prems(1) ne p Cons.prems(3,4)] by simp_all
  have "bestCoverage (solveLoop T ps (solveStep T p st))
          = foldl max (bestCoverage (solveStep T p st)) (map (topMax T) ps)"
    using Cons.prems(5) by (intro Cons.IH[OF Cons.prems(1) rest inv]) simp
  then show ?case
    using Cons.prems(5) solveStep_best[OF Cons.prems(1) ne p Cons.prems(3,5)]
    by (simp add: solveLoop_Cons)
qed

lemma solve_best:
  assumes "wf_tables T" "wf_assigned T (assignedPlacementIndices T)"
  shows "bestCoverage (solve T)
           = foldl max (initialBestCoverage T) (map (topMax T) (assignedPlacementIndices T))"
  using solveLoop_best[OF assms clean_initial rec_inv_initial]
  by (simp add: solve_def) (simp add: initialState_def)

subsection \<open>The search tree depends on the tables only\<close>

definition sameTables :: "worker_data \<Rightarrow> worker_data \<Rightarrow> bool" where
  "sameTables T T' =
     (boardSize T = boardSize T' \<and> pieces T = pieces T' \<and> pieceOrder T = pieceOrder T'
      \<and> placementsMeta T = placementsMeta T' \<and> placementsTargets T = placementsTargets T'
      \<and> piecePlacementStart T = piecePlacementStart T'
      \<and> piecePlacementCount T = piecePlacementCount T')"

lemma sameTables_basic:
  assumes "sameTables T T'"
  shows "metaField T = metaField T'" "placementTargets T = placementTargets T'"
    "placementFree T = placementFree T'" "pieceStart T = pieceStart T'"
    "pieceCount T = pieceCount T'" "piecePlacementIndices T = piecePlacementIndices T'"
    "firstPiece T = firstPiece T'"
proof -
  have e: "placementsMeta T = placementsMeta T'" "placementsTargets T = placementsTargets T'"
    "piecePlacementStart T = piecePlacementStart T'" "piecePlacementCount T = piecePlacementCount T'"
    "pieceOrder T = pieceOrder T'"
    using assms by (simp_all add: sameTables_def)
  show "metaField T = metaField T'" unfolding fun_eq_iff metaField_def e by simp
  show t: "placementTargets T = placementTargets T'" unfolding fun_eq_iff placementTargets_def e by simp
  show "placementFree T = placementFree T'" unfolding fun_eq_iff placementFree_def t by simp
  show s: "pieceStart T = pieceStart T'" unfolding fun_eq_iff pieceStart_def e by simp
  show c: "pieceCount T = pieceCount T'" unfolding fun_eq_iff pieceCount_def e by simp
  show "piecePlacementIndices T = piecePlacementIndices T'"
    unfolding fun_eq_iff piecePlacementIndices_def s c by simp
  show "firstPiece T = firstPiece T'" unfolding firstPiece_def e by simp
qed

lemma sameTables_countValid:
  assumes "sameTables T T'"
  shows "countValid T occ bc ps offs n = countValid T' occ bc ps offs n"
  by (induction offs arbitrary: n) (simp_all add: sameTables_basic(3)[OF assms])

lemma sameTables_selectLoop:
  assumes "sameTables T T'"
  shows "selectLoop T occ rem ri best = selectLoop T' occ rem ri best"
proof (induction rem arbitrary: ri best)
  case Nil
  show ?case by simp
next
  case (Cons a rem)
  obtain bi bc where b: "best = (bi, bc)" by (cases best)
  show ?case
    unfolding b
    by (simp add: Cons.IH sameTables_countValid[OF assms] sameTables_basic(4,5)[OF assms])
qed

lemma sameTables_selectPiece:
  "sameTables T T' \<Longrightarrow> selectPiece T occ rem = selectPiece T' occ rem"
  by (simp add: selectPiece_def sameTables_selectLoop)

lemma sameTables_maxCov:
  "sameTables T T' \<Longrightarrow> maxCov T rem cov occ = maxCov T' rem cov occ"
proof (induction T rem cov occ rule: maxCov.induct)
  case (1 T rem cov occ)
  note s = "1.prems"
  have b: "boardSize T' = boardSize T" using s by (simp add: sameTables_def)
  note basic = sameTables_basic[OF s, symmetric]
  have sel: "selectPiece T' occ rem = selectPiece T occ rem"
    using sameTables_selectPiece[OF s] by simp
  show ?case
  proof (cases "boardSize T \<le> cov \<or> rem = []")
    case True
    then show ?thesis using b by (auto simp: maxCov_unfold[of T] maxCov_unfold[of T'])
  next
    case False
    show ?thesis
    proof (cases "selectPiece T occ rem")
      case None
      with False b sel show ?thesis by (simp add: maxCov_unfold[of T] maxCov_unfold[of T'])
    next
      case (Some ri)
      let ?S = "filter (placementFree T occ) (piecePlacementIndices T (rem ! ri))"
      have each: "childMax T rem ri cov occ p = childMax T' rem ri cov occ p" if "p \<in> set ?S" for p
        unfolding childMax_def basic
        using False Some that s by (intro "1.IH") simp_all
      have m: "map (childMax T rem ri cov occ) ?S = map (childMax T' rem ri cov occ) ?S"
        by (rule map_cong[OF refl each])
      have lhs: "maxCov T rem cov occ = foldl max cov (map (childMax T rem ri cov occ) ?S)"
        using False Some by (simp add: maxCov_unfold[of T])
      have rhs: "maxCov T' rem cov occ = foldl max cov (map (childMax T' rem ri cov occ) ?S)"
        using False Some b sel by (simp add: maxCov_unfold[of T'] basic)
      show ?thesis unfolding lhs rhs m ..
    qed
  qed
qed

lemma sameTables_topMax: "sameTables T T' \<Longrightarrow> topMax T p = topMax T' p"
  using sameTables_maxCov[of T T'] sameTables_basic(1,2,7)[of T T']
  by (simp add: topMax_def sameTables_def)

lemma boardGrid_numWorkers: "boardGrid (inp\<lparr> numWorkers := n \<rparr>) = boardGrid inp"
  by (simp add: boardGrid_def)

lemma rotLimit_numWorkers: "rotLimit (inp\<lparr> numWorkers := n \<rparr>) = rotLimit inp"
  by (simp add: rotLimit_def)

lemma piecePlacementsOf_numWorkers:
  "piecePlacementsOf (inp\<lparr> numWorkers := n \<rparr>) = piecePlacementsOf inp"
  unfolding fun_eq_iff piecePlacementsOf_def boardGrid_numWorkers rotLimit_numWorkers by simp

lemma piecePlacements_numWorkers:
  "piecePlacements (inp\<lparr> numWorkers := n \<rparr>) = piecePlacements inp"
  unfolding piecePlacements_def piecePlacementsOf_numWorkers by simp

lemma mainPieceOrder_numWorkers:
  "mainPieceOrder (inp\<lparr> numWorkers := n \<rparr>) = mainPieceOrder inp"
  unfolding mainPieceOrder_def piecePlacements_numWorkers by simp

lemma exactData_numWorkers:
  "exactData (inp\<lparr> numWorkers := n \<rparr>) k a = exactData inp k a"
  unfolding exactData_def piecePlacements_numWorkers mainPieceOrder_numWorkers
    boardGrid_numWorkers by simp

lemma sameTables_exactData: "sameTables (exactData inp k a) (exactData inp k' a')"
  by (simp add: sameTables_def)

subsection \<open>The best coverage of a run\<close>

text \<open>
  The largest coverage of a node of the whole search tree: the first piece of the static
  order at each of its placements on the empty board, and the unpruned tree below.
\<close>

definition treeBest :: "solver_input \<Rightarrow> int" where
  "treeBest inp =
     (let T = exactData inp 0 []
      in foldl max 0 (map (topMax T) (piecePlacementIndices T (firstPiece T))))"

lemma message_coverage:
  assumes wf: "wf_catalogue inp" and T: "T \<in> set (exactPackages inp)"
  shows "msgCoverage (completeMessage T)
           = foldl max 0 (map (topMax (exactData inp 0 [])) (assignedPlacementIndices T))"
    and "set (assignedPlacementIndices T)
           \<subseteq> set (piecePlacementIndices (exactData inp 0 []) (firstPiece (exactData inp 0 [])))"
proof -
  from exactPackages_member[OF T] obtain k a where Tk: "T = exactData inp k a"
    and ne: "mainPieceOrder inp \<noteq> []"
    and sub: "set a \<subseteq> set (piecePlacementIndices (exactData inp k a) (hd (mainPieceOrder inp)))"
    by blast
  have same: "sameTables T (exactData inp 0 [])"
    unfolding Tk by (rule sameTables_exactData)
  have "bestCoverage (solve T)
          = foldl max (initialBestCoverage T) (map (topMax T) (assignedPlacementIndices T))"
    using wf_tables_compiled[OF wf, of k a] wf_assigned_package[OF T]
    unfolding Tk[symmetric] by (rule solve_best)
  moreover have "topMax T = topMax (exactData inp 0 [])"
    by (rule ext) (rule sameTables_topMax[OF same])
  ultimately show "msgCoverage (completeMessage T)
           = foldl max 0 (map (topMax (exactData inp 0 [])) (assignedPlacementIndices T))"
    by (simp add: completeMessage_def Let_def Tk)
  have "hd (mainPieceOrder inp) = firstPiece (exactData inp 0 [])"
    using ne by (cases "mainPieceOrder inp") (simp_all add: firstPiece_compiled)
  then show "set (assignedPlacementIndices T)
           \<subseteq> set (piecePlacementIndices (exactData inp 0 []) (firstPiece (exactData inp 0 [])))"
    using sub sameTables_basic(6)[OF same] by (simp add: Tk)
qed

lemma message_coverage_le:
  assumes wf: "wf_catalogue inp" and T: "T \<in> set (exactPackages inp)"
  shows "msgCoverage (completeMessage T) \<le> treeBest inp"
proof -
  let ?T0 = "exactData inp 0 []"
  have "Max (insert 0 (topMax ?T0 ` set (assignedPlacementIndices T)))
          \<le> Max (insert 0 (topMax ?T0 ` set (piecePlacementIndices ?T0 (firstPiece ?T0))))"
    using message_coverage(2)[OF wf T] by (intro Max_mono) auto
  then show ?thesis
    by (simp add: message_coverage(1)[OF wf T] treeBest_def Let_def foldl_max_Max)
qed

lemma fold_onComplete_best:
  "m_bestCoverage (foldl (onComplete inp n) ms msgs)
     = foldl max (m_bestCoverage ms) (map msgCoverage msgs)"
  by (induction msgs arbitrary: ms) (simp_all add: onComplete_best)

lemma run_best:
  "m_bestCoverage (exactRun inp arrival)
     = foldl max 0 (map (\<lambda>i. msgCoverage (completeMessage (exactPackages inp ! i))) arrival)"
  by (simp add: exactRun_def Let_def fold_onComplete_best initialMain_def comp_def)

lemma run_best_le:
  assumes wf: "wf_catalogue inp" and arr: "exact_arrivals inp arrival"
  shows "m_bestCoverage (exactRun inp arrival) \<le> treeBest inp"
proof -
  have "0 \<le> treeBest inp" by (simp add: treeBest_def Let_def foldl_max_ge)
  moreover have "\<forall>x \<in> set (map (\<lambda>i. msgCoverage (completeMessage (exactPackages inp ! i))) arrival).
                   x \<le> treeBest inp"
    using arr message_coverage_le[OF wf] by (auto simp: exact_arrivals_def list_all_iff)
  ultimately show ?thesis unfolding run_best by (rule foldl_max_le)
qed

text \<open>With one worker there is one package, holding every placement of the first piece.\<close>

lemma exactPackages_single:
  "exactPackages (inp\<lparr> numWorkers := 1 \<rparr>)
     = (let T = exactData inp 0 []; ps = piecePlacementIndices T (firstPiece T)
        in if ps = [] then [] else [exactData inp 0 ps])"
proof (cases "mainPieceOrder inp")
  case Nil
  then have "set (mainPieceOrder inp) = {}" by simp
  then have "inPieces inp = []" by simp
  then have "pieceCount (exactData inp 0 []) 0 = 0"
    by (simp add: pieceCount_def ta_get_def)
  with Nil show ?thesis
    by (simp add: exactPackages_def mainPieceOrder_numWorkers firstPiece_compiled
        piecePlacementIndices_def Let_def)
next
  case (Cons f rest)
  have "f \<in> set (mainPieceOrder inp)" using Cons by simp
  then have f: "f < length (inPieces inp)" by simp
  let ?T0 = "exactData inp 0 []"
  let ?start = "nat (exactStarts (piecePlacements inp) 0 ! f)"
  let ?count = "length (piecePlacements inp ! f)"
  have fp: "firstPiece ?T0 = f" using Cons by (simp add: firstPiece_compiled)
  have st: "pieceStart ?T0 f = int ?start"
    using f by (simp add: pieceStart_read exactStarts_nth)
  have ct: "pieceCount ?T0 f = ?count" using f by (simp add: pieceCount_read)
  have ps: "piecePlacementIndices ?T0 f = map (\<lambda>k. int (?start + k)) [0 ..< ?count]"
    by (simp add: piecePlacementIndices_def st ct)
  have sp: "exactSpawn (Suc 0) 0 (Suc 0) ?count ?start ?count
              = (if 0 < ?count then [(0, map (\<lambda>k. int (?start + k)) [0 ..< ?count])] else [])"
    by simp
  show ?thesis
    using Cons sp
    by (simp add: exactPackages_def mainPieceOrder_numWorkers piecePlacements_numWorkers
        exactData_numWorkers fp ps Let_def)
qed

lemma wf_catalogue_numWorkers: "wf_catalogue (inp\<lparr> numWorkers := n \<rparr>) = wf_catalogue inp"
  by (simp add: wf_catalogue_def)

lemma single_run_best:
  assumes wf: "wf_catalogue inp"
  shows "m_bestCoverage (exactRun (inp\<lparr> numWorkers := 1 \<rparr>)
            [0 ..< length (exactPackages (inp\<lparr> numWorkers := 1 \<rparr>))]) = treeBest inp"
proof -
  let ?inp1 = "inp\<lparr> numWorkers := 1 \<rparr>"
  let ?T0 = "exactData inp 0 []"
  let ?ps = "piecePlacementIndices ?T0 (firstPiece ?T0)"
  show ?thesis
  proof (cases "?ps = []")
    case True
    then show ?thesis
      unfolding run_best exactPackages_single by (simp add: treeBest_def Let_def)
  next
    case False
    have ws: "exactPackages ?inp1 = [exactData inp 0 ?ps]"
      using False unfolding exactPackages_single by (simp add: Let_def)
    have wf1: "wf_catalogue ?inp1" using wf by (simp add: wf_catalogue_numWorkers)
    have "msgCoverage (completeMessage (exactData inp 0 ?ps))
            = foldl max 0 (map (topMax (exactData ?inp1 0 [])) (assignedPlacementIndices (exactData inp 0 ?ps)))"
      using message_coverage(1)[OF wf1, of "exactData inp 0 ?ps"] ws by simp
    then have "msgCoverage (completeMessage (exactData inp 0 ?ps)) = treeBest inp"
      unfolding exactData_numWorkers by (simp add: treeBest_def Let_def)
    moreover have "0 \<le> treeBest inp" by (simp add: treeBest_def Let_def foldl_max_ge)
    ultimately show ?thesis unfolding run_best ws by simp
  qed
qed

section \<open>What the recorded solutions cover\<close>

subsection \<open>Pieces of a partial solution\<close>

definition pidOf :: "worker_data \<Rightarrow> nat \<Rightarrow> int" where
  "pidOf T i = pid (pieces T ! i)"

text \<open>
  The placements of a piece carry the id of the piece, and the pieces of the order have
  different ids.
\<close>

definition ids_ok :: "worker_data \<Rightarrow> bool" where
  "ids_ok T =
     (distinct (map (pidOf T) (pieceOrder T))
      \<and> (\<forall>i \<in> set (pieceOrder T). \<forall>p \<in> set (piecePlacementIndices T i).
            metaField T p 1 = pidOf T i))"

definition pieces_inv :: "worker_data \<Rightarrow> nat list \<Rightarrow> sol_item list \<Rightarrow> bool" where
  "pieces_inv T rem cur =
     (distinct (map (pidOf T) rem) \<and> distinct (map pieceId cur)
      \<and> (\<forall>it \<in> set cur. pieceId it \<notin> pidOf T ` set rem))"

lemma distinct_map_dropAt:
  assumes "distinct (map f xs)" "i < length xs"
  shows "distinct (map f (dropAt i xs))" and "f (xs ! i) \<notin> f ` set (dropAt i xs)"
proof -
  have xs: "xs = take i xs @ xs ! i # drop (Suc i) xs"
    using assms(2) by (simp add: id_take_nth_drop)
  have "distinct (map f (take i xs @ xs ! i # drop (Suc i) xs))"
    using assms(1) xs by simp
  then show "distinct (map f (dropAt i xs))" and "f (xs ! i) \<notin> f ` set (dropAt i xs)"
    by (auto simp: dropAt_def)
qed

lemma pieces_inv_child:
  assumes inv: "pieces_inv T rem cur" and ri: "ri < length rem"
    and it: "pieceId it = pidOf T (rem ! ri)"
  shows "pieces_inv T (dropAt ri rem) (cur @ [it])"
proof -
  have d: "distinct (map (pidOf T) rem)" using inv by (simp add: pieces_inv_def)
  have mem: "rem ! ri \<in> set rem" using ri by simp
  have new: "pidOf T (rem ! ri) \<notin> pieceId ` set cur"
  proof
    assume "pidOf T (rem ! ri) \<in> pieceId ` set cur"
    then obtain x where x: "x \<in> set cur" "pieceId x = pidOf T (rem ! ri)" by auto
    from inv x(1) have "pieceId x \<notin> pidOf T ` set rem" by (simp add: pieces_inv_def)
    with x(2) mem show False by simp
  qed
  have sub: "set (dropAt ri rem) \<subseteq> set rem" by (rule set_dropAt)
  have old: "\<forall>x \<in> set cur. pieceId x \<notin> pidOf T ` set (dropAt ri rem)"
    using inv sub unfolding pieces_inv_def by blast
  have dc: "distinct (map pieceId cur)" using inv by (simp add: pieces_inv_def)
  show ?thesis
    unfolding pieces_inv_def
    using distinct_map_dropAt[OF d ri] new old dc it by simp
qed

subsection \<open>The recorded solutions reach the best coverage\<close>

definition rec_cov :: "worker_data \<Rightarrow> wstate \<Rightarrow> bool" where
  "rec_cov T st =
     (\<exists>isols. topSolutions st = map (exportSolution T) isols
        \<and> (\<forall>sol \<in> set isols. good_solution T sol \<and> distinct (map pieceId sol)
              \<and> int (length (solTargets T sol)) = bestCoverage st)
        \<and> (0 < bestCoverage st \<longrightarrow> isols \<noteq> []))"

lemma rec_cov_rest: "rest_of a = rest_of b \<Longrightarrow> rec_cov T a = rec_cov T b"
  using rest_fields(1,3)[of a b] by (simp add: rec_cov_def)

definition sol_pre :: "worker_data \<Rightarrow> nat list \<Rightarrow> sol_item list \<Rightarrow> int \<Rightarrow> wstate \<Rightarrow> bool" where
  "sol_pre T rem cur cov st =
     (search_pre T rem cur st \<and> ids_ok T \<and> pieces_inv T rem cur
      \<and> cov = int (length (solTargets T cur)))"

lemma sol_pre_core: "core a = core b \<Longrightarrow> sol_pre T rem cur cov a = sol_pre T rem cur cov b"
  using search_pre_core[of a b T rem cur] by (simp add: sol_pre_def)

lemma rec_cov_node:
  assumes r: "rec_cov T st0" and g: "good_solution T cur" and d: "distinct (map pieceId cur)"
    and c: "cov = int (length (solTargets T cur))"
  shows "rec_cov T (nodeState T cur cov st0)"
proof -
  from r obtain isols where i: "topSolutions st0 = map (exportSolution T) isols"
    "\<forall>sol \<in> set isols. good_solution T sol \<and> distinct (map pieceId sol)
        \<and> int (length (solTargets T sol)) = bestCoverage st0"
    "0 < bestCoverage st0 \<longrightarrow> isols \<noteq> []"
    unfolding rec_cov_def by blast
  show ?thesis
  proof (cases "bestCoverage st0 < cov")
    case True
    show ?thesis
      unfolding rec_cov_def
      by (rule exI[of _ "[cur]"]) (simp add: node_new[OF True] g d c[symmetric])
  next
    case nb: False
    show ?thesis
    proof (cases "cov = bestCoverage st0 \<and> 0 < cov
                    \<and> getSolutionCellSignature T cur \<notin> seenSignatures st0")
      case True
      then have t: "cov = bestCoverage st0" "0 < cov"
        "getSolutionCellSignature T cur \<notin> seenSignatures st0" by simp_all
      note nt = node_tie[OF nb t]
      show ?thesis
        unfolding rec_cov_def nt(1) nt(3)
        using i g d c t(1)
        by (intro exI[of _ "isols @ [cur]"]) auto
    next
      case False
      show ?thesis
        unfolding rec_cov_def
        using i by (intro exI[of _ isols]) (simp add: node_same[OF nb False])
    qed
  qed
qed

lemma sol_pre_child:
  assumes pre: "sol_pre T rem cur cov st" and ri: "ri < length rem"
    and free: "placementFree T (occupancy st) p"
    and p: "p \<in> set (piecePlacementIndices T (rem ! ri))"
    and it: "pIdx it = p" "pieceId it = metaField T p 1"
      "it = mkItem T p \<or> it = firstItem T p \<and> p \<in> set (piecePlacementIndices T (firstPiece T))"
  shows "sol_pre T (dropAt ri rem) (cur @ [it]) (cov + metaField T p 5)
           (applyPlacementByIndex T p (int (rem ! ri)) st)"
proof -
  have sp: "search_pre T rem cur st" using pre by (simp add: sol_pre_def)
  have mem: "rem ! ri \<in> set rem" using ri by simp
  have ok: "piece_ok T (rem ! ri)" and ord: "rem ! ri \<in> set (pieceOrder T)"
    using sp mem by (auto simp: search_pre_def)
  have gp: "good_placement T (rem ! ri) p" by (rule piece_ok_placement[OF ok p])
  have id: "pieceId it = pidOf T (rem ! ri)"
    using pre ord p it(2) by (simp add: sol_pre_def ids_ok_def)
  have "search_pre T (dropAt ri rem) (cur @ [it]) (applyPlacementByIndex T p (int (rem ! ri)) st)"
    by (rule search_pre_child_item[OF sp ri free p it(1,3)])
  moreover have "pieces_inv T (dropAt ri rem) (cur @ [it])"
    using pre by (intro pieces_inv_child[OF _ ri id]) (simp add: sol_pre_def)
  moreover have "cov + metaField T p 5 = int (length (solTargets T (cur @ [it])))"
    using pre gp by (simp add: sol_pre_def solTargets_snoc it(1) good_placement_def)
  ultimately show ?thesis using pre by (simp add: sol_pre_def)
qed

lemma pieceId_mkItem [simp]: "pieceId (mkItem T p) = metaField T p 1"
  by (simp add: mkItem_def)

lemma rec_cov_search:
  shows "sol_pre T rem cur cov st0 \<Longrightarrow> rec_cov T st0
           \<Longrightarrow> rec_cov T (snd (backtrack T rem rs cur cov st0))"
    and "sol_pre T rem cur cov st \<Longrightarrow> rec_cov T st \<Longrightarrow> ri < length rem
           \<Longrightarrow> \<forall>v \<in> set vs. placementFree T (occupancy st) (fst v)
                  \<and> fst v \<in> set (piecePlacementIndices T (rem ! ri))
           \<Longrightarrow> rec_cov T (snd (tryPlacements T rem ri rs cur cov vs st))"
proof (induction T rem rs cur cov st0 and T rem ri rs cur cov vs st rule: backtrack_induct)
  case (node T rem rs cur cov st0)
  let ?x = "nodeState T cur cov st0"
  have px: "sol_pre T rem cur cov ?x"
    using node.prems(1) sol_pre_core[of ?x st0 T rem cur cov] by simp
  have rx: "rec_cov T ?x"
    using node.prems by (intro rec_cov_node) (simp_all add: sol_pre_def search_pre_def pieces_inv_def)
  have ox: "occupancy ?x = occupancy st0" by (rule core_fields(1)) simp
  show ?case
  proof (cases "shouldStop st0")
    case True
    with node.prems show ?thesis by (simp add: backtrack_unfold)
  next
    case ns: False
    show ?thesis
    proof (cases "boardSize T \<le> cov \<or> cov + rs \<le> bestCoverage ?x \<or> rem = []")
      case True
      with ns rx show ?thesis by (auto simp: backtrack_unfold)
    next
      case False
      show ?thesis
      proof (cases "selectPiece T (occupancy ?x) rem")
        case None
        with ns False rx show ?thesis by (simp add: backtrack_unfold)
      next
        case (Some ri)
        let ?vs = "validPlacements T (occupancy ?x) (rem ! ri)"
        show ?thesis
        proof (cases "?vs = []")
          case True
          with ns False Some rx show ?thesis by (simp add: backtrack_unfold)
        next
          case nonempty: False
          have "rec_cov T (snd (tryPlacements T rem ri rs cur cov (sortByAdj ?vs) ?x))"
            using ns False Some nonempty px rx
            by (intro node.IH) (auto dest: selectPiece_bound valid_member)
          with ns False Some nonempty show ?thesis by (simp add: backtrack_unfold)
        qed
      qed
    qed
  qed
next
  case (nil T rem ri rs cur cov st)
  then show ?case by simp
next
  case (cons T rem ri rs cur cov v vs st)
  show ?case
  proof (cases "shouldStop st")
    case True
    with cons.prems show ?thesis by (simp add: tryPlacements_unfold)
  next
    case False
    let ?p = "fst v"
    let ?st1 = "applyPlacementByIndex T ?p (int (rem ! ri)) st"
    let ?c = "childCall T rem ri rs cur cov ?p st"
    let ?st3 = "undoPlacementByIndex T ?p (snd ?c)"
    have free: "placementFree T (occupancy st) ?p"
      and p: "?p \<in> set (piecePlacementIndices T (rem ! ri))"
      using cons.prems(4) by simp_all
    have sp: "search_pre T rem cur st" using cons.prems(1) by (simp add: sol_pre_def)
    have fr: "frame_ok rem st" using sp by (simp add: search_pre_def)
    have pre1: "sol_pre T (dropAt ri rem) (cur @ [mkItem T ?p]) (cov + metaField T ?p 5) ?st1"
      by (rule sol_pre_child[OF cons.prems(1,3) free p]) simp_all
    have r1: "rec_cov T ?st1"
      using cons.prems(2) rec_cov_rest[OF apply_rest[of T ?p "int (rem ! ri)" st], of T] by simp
    have rc: "rec_cov T (snd ?c)"
      using cons.IH(1)[OF False pre1 r1] by (simp add: childCall_def)
    have r3: "rec_cov T ?st3"
      using rc rec_cov_rest[OF undo_rest[of T ?p "snd ?c"], of T] by simp
    have cc: "core (snd ?c) = core ?st1"
      using restore(1)[of "dropAt ri rem" ?st1] pre1
      by (simp add: childCall_def sol_pre_def search_pre_def)
    have c3: "core ?st3 = core st"
      using fr by (intro undo_apply_core[OF free _ _ _ _ cc]) (simp_all add: frame_ok_def)
    show ?thesis
    proof (cases "fst ?c")
      case True
      with False r3 show ?thesis by (simp add: tryPlacements_unfold)
    next
      case f: False
      have "rec_cov T (snd (tryPlacements T rem ri rs cur cov vs ?st3))"
        using cons.prems sol_pre_core[OF c3, of T rem cur cov] r3
        by (intro cons.IH(2)[OF False f]) (simp_all add: core_fields(1)[OF c3])
      with False f show ?thesis by (simp add: tryPlacements_unfold)
    qed
  qed
qed

subsection \<open>The loop of \<open>solve\<close>\<close>

lemma pieceId_firstItem:
  assumes "metaField T p 1 = pidOf T (firstPiece T)"
  shows "pieceId (firstItem T p) = metaField T p 1"
  using assms by (simp add: firstItem_def pidOf_def)

lemma sol_pre_clean:
  assumes wf: "wf_tables T" and ids: "ids_ok T" and cl: "clean T st"
  shows "sol_pre T (pieceOrder T) [] 0 st"
  using search_pre_clean[OF wf cl] ids
  by (simp add: sol_pre_def pieces_inv_def ids_ok_def solTargets_def)

lemma solveStep_cov:
  assumes wf: "wf_tables T" and ids: "ids_ok T" and ne: "pieceOrder T \<noteq> []"
    and p: "p \<in> set (piecePlacementIndices T (firstPiece T))"
    and cl: "clean T st" and rc: "rec_cov T st"
  shows "rec_cov T (solveStep T p st)"
proof -
  let ?f = "firstPiece T"
  let ?rem = "drop 1 (pieceOrder T)"
  let ?st1 = "applyPlacementByIndex T p (int ?f) st"
  let ?bt = "backtrack T ?rem (sumRemainingSizes T ?rem) [firstItem T p] (metaField T p 5) ?st1"
  let ?st3 = "undoPlacementByIndex T p (snd ?bt)"
  have f0: "?f = pieceOrder T ! 0" by (rule firstPiece_nth[OF ne])
  have l0: "0 < length (pieceOrder T)" using ne by simp
  have fm: "?f \<in> set (pieceOrder T)" using f0 ne by simp
  have ok: "piece_ok T ?f" using wf fm by (simp add: wf_tables_def list_all_iff)
  have gp: "good_placement T ?f p" by (rule piece_ok_placement[OF ok p])
  have b: "0 \<le> boardSize T" using wf by (simp add: wf_tables_def)
  have free: "placementFree T (occupancy st) p" by (rule free_clean[OF cl gp b])
  have pre0: "sol_pre T (pieceOrder T) [] 0 st" by (rule sol_pre_clean[OF wf ids cl])
  have m1: "metaField T p 1 = pidOf T ?f" using ids fm p by (simp add: ids_ok_def)
  have "sol_pre T (dropAt 0 (pieceOrder T)) ([] @ [firstItem T p]) (0 + metaField T p 5)
          (applyPlacementByIndex T p (int (pieceOrder T ! 0)) st)"
    using p pieceId_firstItem[OF m1]
    by (intro sol_pre_child[OF pre0 l0 free]) (simp_all add: f0[symmetric])
  then have pre1: "sol_pre T ?rem [firstItem T p] (metaField T p 5) ?st1"
    by (simp add: f0[symmetric] dropAt_0)
  have r1: "rec_cov T ?st1"
    using rc rec_cov_rest[OF apply_rest[of T p "int ?f" st], of T] by simp
  have rb: "rec_cov T (snd ?bt)"
    by (rule rec_cov_search(1)[OF pre1 r1])
  have r3: "rec_cov T ?st3"
    using rb rec_cov_rest[OF undo_rest[of T p "snd ?bt"], of T] by simp
  have r4: "rest_of (solveStep T p st) = rest_of ?st3"
    by (simp add: solveStep_def rest_of_def)
  show ?thesis using r3 rec_cov_rest[OF r4, of T] by simp
qed

lemma solveLoop_cov:
  assumes "wf_tables T" "ids_ok T" "wf_assigned T ps" "clean T st" "rec_inv T st" "rec_cov T st"
  shows "rec_cov T (solveLoop T ps st)"
  using assms
proof (induction ps arbitrary: st)
  case Nil
  then show ?case by simp
next
  case (Cons p ps)
  have ne: "pieceOrder T \<noteq> []" and p: "p \<in> set (piecePlacementIndices T (firstPiece T))"
    and rest: "wf_assigned T ps"
    using Cons.prems(3) by (auto simp: wf_assigned_def)
  show ?case
  proof (cases "shouldStop st")
    case True
    with Cons.prems show ?thesis by (simp add: solveLoop_Cons)
  next
    case False
    have inv: "clean T (solveStep T p st)" "rec_inv T (solveStep T p st)"
      using solveStep_inv[OF Cons.prems(1) ne p Cons.prems(4,5)] by simp_all
    have "rec_cov T (solveStep T p st)"
      by (rule solveStep_cov[OF Cons.prems(1,2) ne p Cons.prems(4,6)])
    then have "rec_cov T (solveLoop T ps (solveStep T p st))"
      by (intro Cons.IH[OF Cons.prems(1,2) rest inv])
    with False show ?thesis by (simp add: solveLoop_Cons)
  qed
qed

lemma rec_cov_initial: "initialBestCoverage T \<le> 0 \<Longrightarrow> rec_cov T (initialState T)"
  unfolding rec_cov_def by (rule exI[of _ "[]"]) (simp add: initialState_def)

lemma solve_rec_cov:
  assumes "wf_tables T" "ids_ok T" "wf_assigned T (assignedPlacementIndices T)"
    "initialBestCoverage T \<le> 0"
  shows "rec_cov T (solve T)"
  unfolding solve_def
  by (rule solveLoop_cov[OF assms(1-3) clean_initial rec_inv_initial rec_cov_initial[OF assms(4)]])

subsection \<open>The compiled tables\<close>

lemma ids_ok_compiled:
  assumes wf: "wf_catalogue inp"
  shows "ids_ok (exactData inp w a)"
proof -
  let ?T = "exactData inp w a"
  have ids: "distinct (map piece_id (inPieces inp))" using wf by (simp add: wf_catalogue_def)
  have pid: "pidOf ?T i = piece_id (inPieces inp ! i)" if "i < length (inPieces inp)" for i
    using that by (simp add: pidOf_def)
  have "inj_on (pidOf ?T) (set (mainPieceOrder inp))"
  proof (rule inj_onI)
    fix x y assume x: "x \<in> set (mainPieceOrder inp)" and y: "y \<in> set (mainPieceOrder inp)"
      and e: "pidOf ?T x = pidOf ?T y"
    then have lx: "x < length (inPieces inp)" and ly: "y < length (inPieces inp)" by simp_all
    from e have "map piece_id (inPieces inp) ! x = map piece_id (inPieces inp) ! y"
      using lx ly by (simp add: pid)
    then show "x = y"
      using nth_eq_iff_index_eq[OF ids, of x y] lx ly by simp
  qed
  then have d: "distinct (map (pidOf ?T) (pieceOrder ?T))"
    by (simp add: distinct_map)
  have m: "\<forall>i \<in> set (pieceOrder ?T). \<forall>p \<in> set (piecePlacementIndices ?T i).
             metaField ?T p 1 = pidOf ?T i"
  proof (intro ballI)
    fix i p assume i: "i \<in> set (pieceOrder ?T)" and p: "p \<in> set (piecePlacementIndices ?T i)"
    from i have li: "i < length (inPieces inp)" by simp
    from item_of_table[OF wf li p] show "metaField ?T p 1 = pidOf ?T i"
      by (auto simp: pid[OF li])
  qed
  from d m show ?thesis by (simp add: ids_ok_def)
qed

lemma export_coverage:
  assumes wf: "wf_catalogue inp" and g: "good_solution (exactData inp w a) sol"
  shows "packingCoverage inp (exportSolution (exactData inp w a) sol)
           = int (length (solTargets (exactData inp w a) sol))"
proof -
  let ?T = "exactData inp w a"
  have len: "length (placementTargets ?T (pIdx it)) = length (replayTargets inp (exportItem ?T it))"
    if "it \<in> set sol" for it
    using good_item_replay(1)[OF wf g that] by (metis length_map)
  have e: "map (\<lambda>it. length (placementTargets ?T (pIdx it))) sol
               = map (\<lambda>it. length (replayTargets inp (exportItem ?T it))) sol"
    by (rule map_cong[OF refl]) (rule len)
  have "length (solTargets ?T sol) = sum_list (map (\<lambda>it. length (placementTargets ?T (pIdx it))) sol)"
    by (simp add: solTargets_def length_concat comp_def)
  also have "\<dots> = sum_list (map (\<lambda>it. length (replayTargets inp (exportItem ?T it))) sol)"
    unfolding e ..
  also have "\<dots> = length (concat (map (replayTargets inp) (exportSolution ?T sol)))"
    by (simp add: exportSolution_map length_concat comp_def)
  finally show ?thesis by (simp add: packingCoverage_def)
qed

lemma export_legal:
  assumes wf: "wf_catalogue inp" and g: "good_solution (exactData inp w a) sol"
    and d: "distinct (map pieceId sol)"
  shows "legalPacking inp (exportSolution (exactData inp w a) sol)"
proof -
  have "map out_piece (exportSolution (exactData inp w a) sol) = map pieceId sol"
    by (simp add: exportSolution_map exportItem_def comp_def)
  with good_solution_export[OF wf g] d show ?thesis
    by (simp add: legalPacking_def validPacking_def)
qed

lemma package_coverage:
  assumes wf: "wf_catalogue inp" and T: "T \<in> set (exactPackages inp)"
  shows "\<forall>s \<in> set (msgSolutions (completeMessage T)).
           legalPacking inp s \<and> packingCoverage inp s = msgCoverage (completeMessage T)"
    and "0 < msgCoverage (completeMessage T) \<longrightarrow> msgSolutions (completeMessage T) \<noteq> []"
proof -
  from exactPackages_member[OF T] obtain k a where Tk: "T = exactData inp k a" by blast
  have "rec_cov T (solve T)"
    using wf_tables_compiled[OF wf, of k a] ids_ok_compiled[OF wf, of k a] wf_assigned_package[OF T]
    unfolding Tk[symmetric] by (intro solve_rec_cov) (simp_all add: Tk)
  then obtain isols where i: "topSolutions (solve T) = map (exportSolution T) isols"
    "\<forall>sol \<in> set isols. good_solution T sol \<and> distinct (map pieceId sol)
        \<and> int (length (solTargets T sol)) = bestCoverage (solve T)"
    "0 < bestCoverage (solve T) \<longrightarrow> isols \<noteq> []"
    unfolding rec_cov_def by blast
  show "\<forall>s \<in> set (msgSolutions (completeMessage T)).
           legalPacking inp s \<and> packingCoverage inp s = msgCoverage (completeMessage T)"
  proof
    fix s assume "s \<in> set (msgSolutions (completeMessage T))"
    then obtain sol where sol: "sol \<in> set isols" and s: "s = exportSolution T sol"
      using i(1) by (auto simp: completeMessage_def Let_def)
    from i(2) sol have g: "good_solution T sol" and d: "distinct (map pieceId sol)"
      and c: "int (length (solTargets T sol)) = bestCoverage (solve T)" by simp_all
    show "legalPacking inp s \<and> packingCoverage inp s = msgCoverage (completeMessage T)"
      using export_legal[OF wf g[unfolded Tk] d] export_coverage[OF wf g[unfolded Tk]] c
      by (simp add: s Tk completeMessage_def Let_def)
  qed
  show "0 < msgCoverage (completeMessage T) \<longrightarrow> msgSolutions (completeMessage T) \<noteq> []"
    using i(1,3) by (simp add: completeMessage_def Let_def)
qed

subsection \<open>Aggregation\<close>

definition agg_cov :: "solver_input \<Rightarrow> main_state \<Rightarrow> bool" where
  "agg_cov inp ms =
     ((\<forall>s \<in> set (m_topSolutions ms). legalPacking inp s \<and> packingCoverage inp s = m_bestCoverage ms)
      \<and> (0 < m_bestCoverage ms \<longrightarrow> m_topSolutions ms \<noteq> [])
      \<and> 0 \<le> m_bestCoverage ms)"

lemma mergeSolutions_keeps: "set tops \<subseteq> set (mergeSolutions inp new existing tops)"
proof (induction new arbitrary: existing tops)
  case Nil
  show ?case by simp
next
  case (Cons s new)
  show ?case
    using Cons.IH[of "tops @ [s]"] Cons.IH[of tops] by (auto simp: Let_def)
qed

lemma agg_cov_step:
  assumes a: "agg_cov inp ms"
    and m: "\<forall>s \<in> set (msgSolutions msg). legalPacking inp s \<and> packingCoverage inp s = msgCoverage msg"
    and ne: "0 < msgCoverage msg \<longrightarrow> msgSolutions msg \<noteq> []"
  shows "agg_cov inp (onComplete inp n ms msg)"
proof (cases "m_bestCoverage ms < msgCoverage msg")
  case True
  with a m ne show ?thesis
    by (simp add: agg_cov_def onComplete_tops onComplete_best)
next
  case nb: False
  show ?thesis
  proof (cases "msgCoverage msg = m_bestCoverage ms")
    case True
    let ?mg = "mergeSolutions inp (msgSolutions msg)
                  (set (map (m_getSolutionCellSignature inp) (m_topSolutions ms)))
                  (m_topSolutions ms)"
    have sub: "set ?mg \<subseteq> set (m_topSolutions ms) \<union> set (msgSolutions msg)"
      by (rule mergeSolutions_set)
    have keep: "set (m_topSolutions ms) \<subseteq> set ?mg" by (rule mergeSolutions_keeps)
    have "\<forall>s \<in> set ?mg. legalPacking inp s \<and> packingCoverage inp s = m_bestCoverage ms"
      using sub a m True by (auto simp: agg_cov_def)
    moreover have "0 < m_bestCoverage ms \<longrightarrow> ?mg \<noteq> []"
      using keep a by (auto simp: agg_cov_def)
    ultimately show ?thesis
      using a nb True by (simp add: agg_cov_def onComplete_tops onComplete_best)
  next
    case False
    with a nb show ?thesis
      by (simp add: agg_cov_def onComplete_tops onComplete_best)
  qed
qed

lemma agg_cov_fold:
  assumes "agg_cov inp ms"
    and "\<forall>msg \<in> set msgs.
           (\<forall>s \<in> set (msgSolutions msg). legalPacking inp s \<and> packingCoverage inp s = msgCoverage msg)
           \<and> (0 < msgCoverage msg \<longrightarrow> msgSolutions msg \<noteq> [])"
  shows "agg_cov inp (foldl (onComplete inp n) ms msgs)"
  using assms
proof (induction msgs arbitrary: ms)
  case Nil
  then show ?case by simp
next
  case (Cons m msgs)
  have "agg_cov inp (onComplete inp n ms m)"
    using Cons.prems by (intro agg_cov_step) simp_all
  then show ?case using Cons.prems by (simp add: Cons.IH)
qed

lemma run_agg_cov:
  assumes wf: "wf_catalogue inp" and arr: "exact_arrivals inp arrival"
  shows "agg_cov inp (exactRun inp arrival)"
  unfolding exactRun_def Let_def
proof (rule agg_cov_fold)
  show "agg_cov inp initialMain" by (simp add: agg_cov_def initialMain_def)
  show "\<forall>msg \<in> set (map (\<lambda>i. completeMessage (exactPackages inp ! i)) arrival).
           (\<forall>s \<in> set (msgSolutions msg). legalPacking inp s \<and> packingCoverage inp s = msgCoverage msg)
           \<and> (0 < msgCoverage msg \<longrightarrow> msgSolutions msg \<noteq> [])"
  proof
    fix msg assume "msg \<in> set (map (\<lambda>i. completeMessage (exactPackages inp ! i)) arrival)"
    then obtain i where i: "i \<in> set arrival" and m: "msg = completeMessage (exactPackages inp ! i)"
      by auto
    from i arr have "exactPackages inp ! i \<in> set (exactPackages inp)"
      by (simp add: exact_arrivals_def list_all_iff)
    from package_coverage[OF wf this] show
      "(\<forall>s \<in> set (msgSolutions msg). legalPacking inp s \<and> packingCoverage inp s = msgCoverage msg)
           \<and> (0 < msgCoverage msg \<longrightarrow> msgSolutions msg \<noteq> [])"
      unfolding m by blast
  qed
qed

subsection \<open>The slices cover the placements of the first piece\<close>

lemma upt_split: "a \<le> b \<Longrightarrow> b \<le> c \<Longrightarrow> [a ..< b] @ [b ..< c] = [a ..< c]"
  by (metis le_Suc_ex upt_add_eq_append)

lemma exactSpawn_cover:
  assumes "count \<le> nW * per" and "fuel + i = nW"
  shows "concat (map snd (exactSpawn fuel i nW per start count))
           = map (\<lambda>k. int (start + k)) [min (i * per) count ..< count]"
  using assms(2)
proof (induction fuel arbitrary: i)
  case 0
  then have "i = nW" by simp
  with assms(1) show ?case by (simp add: min_absorb2 mult.commute)
next
  case (Suc fuel)
  then have i: "i < nW" and next_i: "fuel + (i + 1) = nW" by simp_all
  show ?case
  proof (cases "i * per < count")
    case True
    have ih: "concat (map snd (exactSpawn fuel (i + 1) nW per start count))
                = map (\<lambda>k. int (start + k)) [min ((i + 1) * per) count ..< count]"
      by (rule Suc.IH[OF next_i])
    have e: "min (i * per + per) count = min ((i + 1) * per) count" by (simp add: add.commute)
    have "[i * per ..< min (i * per + per) count] @ [min ((i + 1) * per) count ..< count]
            = [i * per ..< count]"
      unfolding e using True by (intro upt_split) simp_all
    then have "map (\<lambda>k. int (start + k)) [i * per ..< min (i * per + per) count]
                 @ map (\<lambda>k. int (start + k)) [min ((i + 1) * per) count ..< count]
               = map (\<lambda>k. int (start + k)) [i * per ..< count]"
      by (metis map_append)
    with True i ih show ?thesis by (simp add: Let_def min_absorb1)
  next
    case False
    then show ?thesis using i by (simp add: min_absorb2)
  qed
qed

lemma ceil_div_covers:
  assumes "0 < (n :: nat)"
  shows "c \<le> n * ((c + n - 1) div n)"
proof -
  have m: "(c + n - 1) mod n < n" using assms by simp
  have "c + n - 1 = n * ((c + n - 1) div n) + (c + n - 1) mod n" by simp
  with m assms show ?thesis by linarith
qed

lemma exactPackages_cover:
  assumes nw: "0 < numWorkers inp"
    and p: "p \<in> set (piecePlacementIndices (exactData inp 0 []) (firstPiece (exactData inp 0 [])))"
  shows "\<exists>T \<in> set (exactPackages inp). p \<in> set (assignedPlacementIndices T)"
proof (cases "mainPieceOrder inp")
  case Nil
  then have "set (mainPieceOrder inp) = {}" by simp
  then have "inPieces inp = []" by simp
  then have "pieceCount (exactData inp 0 []) 0 = 0"
    by (simp add: pieceCount_def ta_get_def)
  with Nil p show ?thesis
    by (simp add: firstPiece_compiled piecePlacementIndices_def)
next
  case (Cons f rest)
  have "f \<in> set (mainPieceOrder inp)" using Cons by simp
  then have f: "f < length (inPieces inp)" by simp
  let ?T0 = "exactData inp 0 []"
  let ?start = "nat (exactStarts (piecePlacements inp) 0 ! f)"
  let ?count = "length (piecePlacements inp ! f)"
  let ?per = "(?count + numWorkers inp - 1) div numWorkers inp"
  let ?sl = "exactSpawn (numWorkers inp) 0 (numWorkers inp) ?per ?start ?count"
  have fp: "firstPiece ?T0 = f" using Cons by (simp add: firstPiece_compiled)
  have st: "pieceStart ?T0 f = int ?start"
    using f by (simp add: pieceStart_read exactStarts_nth)
  have ct: "pieceCount ?T0 f = ?count" using f by (simp add: pieceCount_read)
  have ps: "piecePlacementIndices ?T0 f = map (\<lambda>k. int (?start + k)) [0 ..< ?count]"
    by (simp add: piecePlacementIndices_def st ct)
  have "concat (map snd ?sl) = map (\<lambda>k. int (?start + k)) [min (0 * ?per) ?count ..< ?count]"
    by (rule exactSpawn_cover[OF ceil_div_covers[OF nw]]) simp
  then have "p \<in> set (concat (map snd ?sl))" using p by (simp add: fp ps)
  then obtain k a where ka: "(k, a) \<in> set ?sl" and pa: "p \<in> set a" by auto
  have "exactData inp k a \<in> set (exactPackages inp)"
    using ka Cons by (force simp: exactPackages_def Let_def)
  with pa show ?thesis by (intro bexI[of _ "exactData inp k a"]) simp_all
qed

lemma foldl_max_mem: "x \<in> set xs \<Longrightarrow> (x :: int) \<le> foldl max b xs"
  by (simp add: foldl_max_Max)

lemma complete_run_best:
  assumes wf: "wf_catalogue inp" and nw: "0 < numWorkers inp"
    and all: "set arrival = {0 ..< length (exactPackages inp)}"
  shows "m_bestCoverage (exactRun inp arrival) = treeBest inp"
proof (rule order.antisym)
  have arr: "exact_arrivals inp arrival" using all by (simp add: exact_arrivals_def list_all_iff)
  show "m_bestCoverage (exactRun inp arrival) \<le> treeBest inp"
    by (rule run_best_le[OF wf arr])
  let ?T0 = "exactData inp 0 []"
  let ?best = "m_bestCoverage (exactRun inp arrival)"
  have b0: "0 \<le> ?best" unfolding run_best by (rule foldl_max_ge)
  have each: "topMax ?T0 p \<le> ?best"
    if p: "p \<in> set (piecePlacementIndices ?T0 (firstPiece ?T0))" for p
  proof -
    from exactPackages_cover[OF nw p] obtain T where T: "T \<in> set (exactPackages inp)"
      and pa: "p \<in> set (assignedPlacementIndices T)" by blast
    from T obtain i where i: "i < length (exactPackages inp)" "exactPackages inp ! i = T"
      by (auto simp: in_set_conv_nth)
    then have ia: "i \<in> set arrival" using all by simp
    have "topMax ?T0 p \<le> msgCoverage (completeMessage T)"
      unfolding message_coverage(1)[OF wf T] using pa by (intro foldl_max_mem) simp
    also have "\<dots> \<le> ?best"
      unfolding run_best using ia i(2) by (intro foldl_max_mem) force
    finally show ?thesis .
  qed
  show "treeBest inp \<le> ?best"
    unfolding treeBest_def Let_def using b0 each by (intro foldl_max_le) auto
qed

section \<open>The tables in 32-bit storage\<close>

text \<open>
  The numbers the coordinating side writes into its \<open>Int32Array\<close>s: the piece ids, the
  piece, cell and placement indices, and the offsets into the target table, which go up
  to \<open>numPlacements\<close> and \<open>totalTargets\<close>.
\<close>

definition fits32 :: "int \<Rightarrow> bool" where
  "fits32 v = (- 2147483648 \<le> v \<and> v < 2147483648)"

definition numPlacements :: "solver_input \<Rightarrow> nat" where
  "numPlacements inp = length (concat (piecePlacements inp))"

definition totalTargets :: "solver_input \<Rightarrow> nat" where
  "totalTargets inp = length (concat (map pl_targets (concat (piecePlacements inp))))"

text \<open>
  The conditions on the input of a run: those on the catalogue above, and every number
  written into an \<open>Int32Array\<close> is a 32-bit integer: the piece ids, the number of board
  cells, the number of placements and the number of target cells.
\<close>

definition wf_input :: "solver_input \<Rightarrow> bool" where
  "wf_input inp =
     (distinct (map piece_id (inPieces inp))
      \<and> list_all (\<lambda>pc. distinct (piece_cells pc)) (inPieces inp)
      \<and> length (inPieces inp) < 65535
      \<and> list_all (\<lambda>pc. fits32 (piece_id pc)) (inPieces inp)
      \<and> fits32 (int (max 1 (boardW inp) * max 1 (boardH inp)))
      \<and> fits32 (int (numPlacements inp))
      \<and> fits32 (int (totalTargets inp)))"

text \<open>Every arrival is the number of a worker that was created.\<close>

definition arrivals_ok :: "solver_input \<Rightarrow> nat list \<Rightarrow> bool" where
  "arrivals_ok inp arrival = list_all (\<lambda>i. i < length (workPackages inp)) arrival"

lemma wf_input_catalogue: "wf_input inp \<Longrightarrow> wf_catalogue inp"
  by (simp add: wf_input_def wf_catalogue_def)

lemma to_int32_fits: "fits32 v \<Longrightarrow> to_int32 v = v"
  by (simp add: fits32_def to_int32_id)

lemma fits32_le: "fits32 (int n) \<Longrightarrow> m \<le> n \<Longrightarrow> fits32 (int m)"
  by (simp add: fits32_def)

lemma packMeta_exact:
  assumes "\<forall>pl \<in> set pls. fits32 (int (pl_pieceIdx pl)) \<and> fits32 (pl_pieceId pl)
              \<and> fits32 (int (pl_anchorIdx pl)) \<and> fits32 (int (pl_rot pl))"
    and "fits32 (int (c + length (concat (map pl_targets pls))))"
  shows "packMeta pls c = exactMeta pls c"
  using assms
proof (induction pls arbitrary: c)
  case Nil
  show ?case by simp
next
  case (Cons pl pls)
  have tot: "fits32 (int (c + length (pl_targets pl) + length (concat (map pl_targets pls))))"
    using Cons.prems(2) by (simp add: add.assoc)
  have c: "fits32 (int c)" by (rule fits32_le[OF tot]) simp
  have l: "fits32 (int (length (pl_targets pl)))" by (rule fits32_le[OF tot]) simp
  have ih: "packMeta pls (c + length (pl_targets pl)) = exactMeta pls (c + length (pl_targets pl))"
    using Cons.prems(1) tot by (intro Cons.IH) simp_all
  show ?case
    using Cons.prems(1) c l ih by (simp add: to_int32_fits)
qed

lemma packStarts_exact:
  "fits32 (int (c + length (concat ls))) \<Longrightarrow> packStarts ls c = exactStarts ls c"
proof (induction ls arbitrary: c)
  case Nil
  show ?case by simp
next
  case (Cons l ls)
  have tot: "fits32 (int (c + length l + length (concat ls)))"
    using Cons.prems by (simp add: add.assoc)
  have c: "fits32 (int c)" by (rule fits32_le[OF tot]) simp
  show ?case using Cons.IH[OF tot] c by (simp add: to_int32_fits)
qed

lemma length_le_concat: "l \<in> set ls \<Longrightarrow> length l \<le> length (concat ls)"
  by (induction ls) auto

lemma concat_member_nth:
  "pl \<in> set (concat (piecePlacements inp))
     \<Longrightarrow> \<exists>i < length (inPieces inp). pl \<in> set (piecePlacements inp ! i)"
  by (auto simp: in_set_conv_nth[of _ "piecePlacements inp"])

lemma rotLimit_le: "rotLimit inp \<le> 6"
  by (simp add: rotLimit_def)

lemma placement_fits:
  assumes wf: "wf_input inp" and pl: "pl \<in> set (concat (piecePlacements inp))"
  shows "fits32 (int (pl_pieceIdx pl)) \<and> fits32 (pl_pieceId pl)
           \<and> fits32 (int (pl_anchorIdx pl)) \<and> fits32 (int (pl_rot pl))"
    and "\<forall>t \<in> set (pl_targets pl). fits32 (int t)"
proof -
  from concat_member_nth[OF pl] obtain i where i: "i < length (inPieces inp)"
    and m: "pl \<in> set (piecePlacements inp ! i)" by blast
  have po: "placement_of inp i pl" by (rule piecePlacements_member[OF i m])
  have b: "fits32 (int (length (boardGrid inp)))"
    using wf by (simp add: wf_input_def length_boardGrid)
  have "fits32 (int (pl_pieceIdx pl))"
    using po wf by (simp add: placement_of_def wf_input_def fits32_def)
  moreover have "fits32 (pl_pieceId pl)"
    using po wf i by (simp add: placement_of_def wf_input_def list_all_iff)
  moreover have "fits32 (int (pl_anchorIdx pl))"
    using po by (intro fits32_le[OF b]) (simp add: placement_of_def)
  moreover have "fits32 (int (pl_rot pl))"
    using po rotLimit_le[of inp] by (simp add: placement_of_def fits32_def)
  ultimately show "fits32 (int (pl_pieceIdx pl)) \<and> fits32 (pl_pieceId pl)
           \<and> fits32 (int (pl_anchorIdx pl)) \<and> fits32 (int (pl_rot pl))" by simp
  show "\<forall>t \<in> set (pl_targets pl). fits32 (int t)"
  proof
    fix t assume "t \<in> set (pl_targets pl)"
    with placement_of_targets(2)[OF po] have "t \<le> length (boardGrid inp)" by auto
    then show "fits32 (int t)" by (rule fits32_le[OF b])
  qed
qed

lemma workerData_exact:
  assumes wf: "wf_input inp"
  shows "workerData inp w a = exactData inp w a"
proof -
  have m: "packMeta (concat (piecePlacements inp)) 0 = exactMeta (concat (piecePlacements inp)) 0"
    using placement_fits(1)[OF wf] wf
    by (intro packMeta_exact) (simp_all add: wf_input_def totalTargets_def)
  have t: "map (\<lambda>t. to_int32 (int t)) (concat (map pl_targets (concat (piecePlacements inp))))
             = map int (concat (map pl_targets (concat (piecePlacements inp))))"
  proof (rule map_cong[OF refl])
    fix x assume "x \<in> set (concat (map pl_targets (concat (piecePlacements inp))))"
    then obtain pl where pl: "pl \<in> set (concat (piecePlacements inp))" and x: "x \<in> set (pl_targets pl)"
      by auto
    from placement_fits(2)[OF wf pl] x show "to_int32 (int x) = int x"
      by (simp add: to_int32_fits)
  qed
  have s: "packStarts (piecePlacements inp) 0 = exactStarts (piecePlacements inp) 0"
    using wf by (intro packStarts_exact) (simp add: wf_input_def numPlacements_def)
  have c: "map (\<lambda>l. to_int32 (int (length l))) (piecePlacements inp)
             = map (\<lambda>l. int (length l)) (piecePlacements inp)"
  proof (rule map_cong[OF refl])
    fix l assume "l \<in> set (piecePlacements inp)"
    then have le: "length l \<le> numPlacements inp"
      unfolding numPlacements_def by (rule length_le_concat)
    have nf: "fits32 (int (numPlacements inp))" using wf by (simp add: wf_input_def)
    have "fits32 (int (length l))" by (rule fits32_le[OF nf le])
    then show "to_int32 (int (length l)) = int (length l)" by (rule to_int32_fits)
  qed
  show ?thesis unfolding workerData_def exactData_def m t s c ..
qed

lemma spawnLoop_exact:
  assumes "fits32 (int (start + count))"
  shows "spawnLoop fuel i nW per (int start) count = exactSpawn fuel i nW per start count"
proof (induction fuel arbitrary: i)
  case 0
  show ?case by simp
next
  case (Suc fuel)
  have e: "map (\<lambda>k. to_int32 (int start + int k)) [i * per ..< min (i * per + per) count]
             = map (\<lambda>k. int (start + k)) [i * per ..< min (i * per + per) count]"
  proof (rule map_cong[OF refl])
    fix k assume "k \<in> set [i * per ..< min (i * per + per) count]"
    then have "start + k \<le> start + count" by simp
    with assms have "fits32 (int (start + k))" by (rule fits32_le)
    then show "to_int32 (int start + int k) = int (start + k)" by (simp add: to_int32_fits)
  qed
  show ?case by (simp add: Let_def e Suc.IH)
qed

lemma take_concat_le:
  "f < length ls \<Longrightarrow> length (concat (take f ls)) + length (ls ! f) \<le> length (concat ls)"
proof -
  assume f: "f < length ls"
  have "ls = take f ls @ ls ! f # drop (Suc f) ls" using f by (simp add: id_take_nth_drop)
  then have "concat ls = concat (take f ls) @ ls ! f @ concat (drop (Suc f) ls)"
    by (metis concat.simps(2) concat_append)
  then have "length (concat ls)
      = length (concat (take f ls)) + length (ls ! f) + length (concat (drop (Suc f) ls))"
    by (metis length_append add.assoc)
  then show ?thesis by simp
qed

lemma workPackages_exact:
  assumes wf: "wf_input inp"
  shows "workPackages inp = exactPackages inp"
proof (cases "mainPieceOrder inp")
  case Nil
  then show ?thesis by (simp add: workPackages_def exactPackages_def)
next
  case (Cons f rest)
  have "f \<in> set (mainPieceOrder inp)" using Cons by simp
  then have f: "f < length (inPieces inp)" by simp
  let ?pps = "piecePlacements inp"
  let ?start = "length (concat (take f ?pps))"
  let ?count = "length (?pps ! f)"
  have le: "?start + ?count \<le> numPlacements inp"
    unfolding numPlacements_def using f by (intro take_concat_le) simp
  have nf: "fits32 (int (numPlacements inp))" using wf by (simp add: wf_input_def)
  have fit: "fits32 (int (?start + ?count))" by (rule fits32_le[OF nf le])
  have st: "packStarts ?pps 0 ! f = int ?start"
    using wf f by (simp add: packStarts_exact wf_input_def numPlacements_def exactStarts_nth)
  have st': "nat (exactStarts ?pps 0 ! f) = ?start"
    using f by (simp add: exactStarts_nth)
  have "fits32 (int ?count)" by (rule fits32_le[OF fit]) simp
  then have ct: "nat (map (\<lambda>l. to_int32 (int (length l))) ?pps ! f) = ?count"
    using f by (simp add: to_int32_fits)
  have wd: "(\<lambda>(i, assigned). workerData inp i assigned) = (\<lambda>(i, assigned). exactData inp i assigned)"
    by (simp add: workerData_exact[OF wf])
  show ?thesis
    unfolding workPackages_def exactPackages_def Cons list.case Let_def st st' ct wd
      spawnLoop_exact[OF fit] ..
qed

lemma run_exact: "wf_input inp \<Longrightarrow> solveWithWorkers inp arrival = exactRun inp arrival"
  by (simp add: solveWithWorkers_def exactRun_def workPackages_exact)

lemma arrivals_exact: "wf_input inp \<Longrightarrow> arrivals_ok inp arrival = exact_arrivals inp arrival"
  by (simp add: arrivals_ok_def exact_arrivals_def workPackages_exact)

lemma numPlacements_numWorkers: "numPlacements (inp\<lparr> numWorkers := n \<rparr>) = numPlacements inp"
  by (simp add: numPlacements_def piecePlacements_numWorkers)

lemma totalTargets_numWorkers: "totalTargets (inp\<lparr> numWorkers := n \<rparr>) = totalTargets inp"
  by (simp add: totalTargets_def piecePlacements_numWorkers)

lemma wf_input_numWorkers: "wf_input (inp\<lparr> numWorkers := n \<rparr>) = wf_input inp"
  by (simp add: wf_input_def numPlacements_numWorkers totalTargets_numWorkers)

section \<open>The final list and the best coverage of a run\<close>

text \<open>
  C5.  In a run on a well-formed input, whatever the order in which the workers'
  results arrive, no two solutions of the list have the same signature.  A signature is
  a function of the board, the catalogue and the solution alone, and it is in canonical
  form: sorting it again changes nothing, for the coordinating side's and for the
  worker's signature alike.
\<close>

theorem final_list_signatures_distinct:
  assumes "wf_input inp" and "arrivals_ok inp arrival"
  shows "distinct (map (m_getSolutionCellSignature inp)
                     (m_topSolutions (solveWithWorkers inp arrival)))
       \<and> sort_key fst (m_getSolutionCellSignature inp s) = m_getSolutionCellSignature inp s
       \<and> sort_key fst (getSolutionCellSignature T sol) = getSolutionCellSignature T sol"
proof -
  have c: "wf_catalogue inp" by (rule wf_input_catalogue[OF assms(1)])
  have a: "exact_arrivals inp arrival" using assms by (simp add: arrivals_exact)
  from run_agg_inv[OF c a] show ?thesis
    unfolding run_exact[OF assms(1)]
    by (simp add: agg_inv_def m_getSolutionCellSignature_def getSolutionCellSignature_def
        sort_key_sorted_id)
qed

text \<open>
  C7.  Every solution of the final list is a valid packing: any two different
  placements of it have no target cell in common, and every target cell of every
  placement is a cell of the board (the replay of a placement drops no cell of its
  piece, and each target index is below the board size).
\<close>

theorem final_solutions_are_packings:
  assumes "wf_input inp" and "arrivals_ok inp arrival"
  shows "\<forall>s \<in> set (m_topSolutions (solveWithWorkers inp arrival)).
           (\<forall>i < length s. \<forall>j < length s. i \<noteq> j \<longrightarrow>
               set (replayTargets inp (s ! i)) \<inter> set (replayTargets inp (s ! j)) = {})
         \<and> list_all (legalPlacement inp) s
         \<and> (\<forall>pl \<in> set s. \<forall>t \<in> set (replayTargets inp pl).
               t < max 1 (boardW inp) * max 1 (boardH inp))"
proof
  have c: "wf_catalogue inp" by (rule wf_input_catalogue[OF assms(1)])
  have ar: "exact_arrivals inp arrival" using assms by (simp add: arrivals_exact)
  fix s assume "s \<in> set (m_topSolutions (solveWithWorkers inp arrival))"
  then have "s \<in> set (m_topSolutions (exactRun inp arrival))"
    by (simp add: run_exact[OF assms(1)])
  with run_agg_inv[OF c ar] have v: "validPacking inp s" by (simp add: agg_inv_def)
  have a: "\<forall>i < length s. \<forall>j < length s. i \<noteq> j \<longrightarrow>
               set (replayTargets inp (s ! i)) \<inter> set (replayTargets inp (s ! j)) = {}"
  proof (intro allI impI)
    fix i j assume ij: "i < length s" "j < length s" "i \<noteq> j"
    have d: "distinct (concat (map (replayTargets inp) s))" using v by (simp add: validPacking_def)
    from ij consider "i < j" | "j < i" by linarith
    then show "set (replayTargets inp (s ! i)) \<inter> set (replayTargets inp (s ! j)) = {}"
    proof cases
      case 1
      with ij distinct_concat_disjoint[OF d, of i j] show ?thesis by simp
    next
      case 2
      with ij distinct_concat_disjoint[OF d, of j i] show ?thesis by (simp add: Int_commute)
    qed
  qed
  have b: "\<forall>pl \<in> set s. \<forall>t \<in> set (replayTargets inp pl).
               t < max 1 (boardW inp) * max 1 (boardH inp)"
  proof (intro ballI)
    fix pl t assume "pl \<in> set s" "t \<in> set (replayTargets inp pl)"
    then obtain h where "cellIndexMap (boardGrid inp) h = Some t"
      by (auto simp: replayTargets_def split: option.splits)
    then show "t < max 1 (boardW inp) * max 1 (boardH inp)"
      by (simp add: cellIndexMap_Some_iff[OF distinct_boardGrid] length_boardGrid)
  qed
  from v a b show "(\<forall>i < length s. \<forall>j < length s. i \<noteq> j \<longrightarrow>
               set (replayTargets inp (s ! i)) \<inter> set (replayTargets inp (s ! j)) = {})
         \<and> list_all (legalPlacement inp) s
         \<and> (\<forall>pl \<in> set s. \<forall>t \<in> set (replayTargets inp pl).
               t < max 1 (boardW inp) * max 1 (boardH inp))"
    by (simp add: validPacking_def)
qed

text \<open>
  C8.  For the same board, pieces and rotation flag, and with no cancellation, the best
  coverage at the end of the run with a single worker, which searches below every
  placement of the first piece, is at least the best coverage of the run with any number
  of workers, whatever messages of its workers have arrived and in whatever order; and
  the run with any positive number of workers, once the messages of all its workers have
  arrived, ends with the same best coverage as the run with a single worker: sharding
  loses nothing of it.
\<close>

theorem single_worker_coverage_at_least_sharded:
  assumes "wf_input inp" and "arrivals_ok inp arrival"
  shows "m_bestCoverage (solveWithWorkers inp arrival)
           \<le> m_bestCoverage (solveWithWorkers (inp\<lparr> numWorkers := 1 \<rparr>)
                 [0 ..< length (workPackages (inp\<lparr> numWorkers := 1 \<rparr>))])
       \<and> (0 < numWorkers inp \<and> set arrival = {0 ..< length (workPackages inp)}
            \<longrightarrow> m_bestCoverage (solveWithWorkers inp arrival)
                 = m_bestCoverage (solveWithWorkers (inp\<lparr> numWorkers := 1 \<rparr>)
                     [0 ..< length (workPackages (inp\<lparr> numWorkers := 1 \<rparr>))]))"
proof -
  have c: "wf_catalogue inp" by (rule wf_input_catalogue[OF assms(1)])
  have a: "exact_arrivals inp arrival" using assms by (simp add: arrivals_exact)
  have wf1: "wf_input (inp\<lparr> numWorkers := 1 \<rparr>)"
    using assms(1) unfolding wf_input_numWorkers .
  have single: "m_bestCoverage (solveWithWorkers (inp\<lparr> numWorkers := 1 \<rparr>)
                 [0 ..< length (workPackages (inp\<lparr> numWorkers := 1 \<rparr>))]) = treeBest inp"
    unfolding run_exact[OF wf1] workPackages_exact[OF wf1] by (rule single_run_best[OF c])
  have le: "m_bestCoverage (solveWithWorkers inp arrival) \<le> treeBest inp"
    unfolding run_exact[OF assms(1)] by (rule run_best_le[OF c a])
  have eq: "m_bestCoverage (solveWithWorkers inp arrival) = treeBest inp"
    if "0 < numWorkers inp" "set arrival = {0 ..< length (workPackages inp)}"
    unfolding run_exact[OF assms(1)]
    using that by (intro complete_run_best[OF c]) (simp_all add: workPackages_exact[OF assms(1)])
  from le eq show ?thesis unfolding single by blast
qed

text \<open>
  C1, amended.  In a run that is not cancelled, whatever messages of its workers have
  arrived and in whatever order (so also when all have arrived and the run is complete),
  the final list holds coverings that reach the final best coverage, though not always
  every one of them: every solution of the list is a legal packing (legal placements, no
  piece twice, no cell twice) that covers exactly as many cells as the final best
  coverage, and when that coverage is positive the list is not empty.
\<close>

theorem final_list_reaches_best_coverage:
  assumes "wf_input inp" and "arrivals_ok inp arrival"
  shows "(0 < m_bestCoverage (solveWithWorkers inp arrival)
            \<longrightarrow> m_topSolutions (solveWithWorkers inp arrival) \<noteq> [])
       \<and> (\<forall>s \<in> set (m_topSolutions (solveWithWorkers inp arrival)).
             legalPacking inp s
             \<and> packingCoverage inp s = m_bestCoverage (solveWithWorkers inp arrival))"
proof -
  have c: "wf_catalogue inp" by (rule wf_input_catalogue[OF assms(1)])
  have a: "exact_arrivals inp arrival" using assms by (simp add: arrivals_exact)
  from run_agg_cov[OF c a] show ?thesis
    unfolding run_exact[OF assms(1)] by (simp add: agg_cov_def)
qed

section \<open>Choosing the most constrained piece\<close>

text \<open>The number of placements of a piece whose target cells are all unoccupied.\<close>

definition legalCount :: "worker_data \<Rightarrow> int list \<Rightarrow> nat \<Rightarrow> nat" where
  "legalCount T occ i =
     length (filter (placementFree T occ)
               (map (\<lambda>off. pieceStart T i + int off) [0 ..< pieceCount T i]))"

text \<open>The selection loop with every count taken in full.\<close>

fun selectLoopFull ::
    "worker_data \<Rightarrow> int list \<Rightarrow> nat list \<Rightarrow> nat \<Rightarrow> nat option \<times> nat option
       \<Rightarrow> nat option \<times> nat option" where
  "selectLoopFull T occ [] ri best = best"
| "selectLoopFull T occ (pi # rest) ri (bestRi, bestCount) =
     (let count = legalCount T occ pi
      in selectLoopFull T occ rest (ri + 1)
           (if 0 < count \<and> below count bestCount then (Some ri, Some count)
            else (bestRi, bestCount)))"

definition selectPieceFull :: "worker_data \<Rightarrow> int list \<Rightarrow> nat list \<Rightarrow> nat option" where
  "selectPieceFull T occ remainingPieces = fst (selectLoopFull T occ remainingPieces 0 (None, None))"

text \<open>
  Index \<open>ri\<close> is the most constrained piece of \<open>rem\<close>: it has a legal placement, no piece
  with a legal placement has fewer, and every earlier such piece has strictly more.
\<close>

definition mostConstrained :: "worker_data \<Rightarrow> int list \<Rightarrow> nat list \<Rightarrow> nat \<Rightarrow> bool" where
  "mostConstrained T occ rem ri =
     (ri < length rem \<and> 0 < legalCount T occ (rem ! ri)
      \<and> list_all (\<lambda>j. 0 < legalCount T occ (rem ! j)
                        \<longrightarrow> legalCount T occ (rem ! ri) \<le> legalCount T occ (rem ! j))
           [0 ..< length rem]
      \<and> list_all (\<lambda>j. 0 < legalCount T occ (rem ! j)
                        \<longrightarrow> legalCount T occ (rem ! ri) < legalCount T occ (rem ! j))
           [0 ..< ri])"

lemma countValid_general:
  "countValid T occ bc pStart offs count =
     (case bc of
        None \<Rightarrow> count + length (filter (\<lambda>off. placementFree T occ (pStart + int off)) offs)
      | Some b \<Rightarrow>
          if count < b
          then min b (count + length (filter (\<lambda>off. placementFree T occ (pStart + int off)) offs))
          else countValid T occ bc pStart offs count)"
proof (induction offs arbitrary: count)
  case Nil
  show ?case by (simp split: option.split)
next
  case (Cons off offs)
  show ?case
  proof (cases bc)
    case None
    then show ?thesis using Cons.IH by (simp add: reaches_def)
  next
    case (Some b)
    show ?thesis
    proof (cases "count < b")
      case False
      with Some show ?thesis by simp
    next
      case True
      show ?thesis
      proof (cases "placementFree T occ (pStart + int off)")
        case free: True
        show ?thesis
        proof (cases "b \<le> count + 1")
          case True
          with Some \<open>count < b\<close> free show ?thesis by (simp add: reaches_def)
        next
          case False
          then have "count + 1 < b" by simp
          with Some free False Cons.IH[of "count + 1"] show ?thesis
            by (simp add: reaches_def)
        qed
      next
        case nf: False
        with Some True Cons.IH[of count] show ?thesis by simp
      qed
    qed
  qed
qed

lemma countValid_from_zero:
  assumes "\<And>b. bc = Some b \<Longrightarrow> 0 < b"
  shows "countValid T occ bc (pieceStart T i) [0 ..< pieceCount T i] 0 =
           (case bc of None \<Rightarrow> legalCount T occ i | Some b \<Rightarrow> min b (legalCount T occ i))"
proof -
  have "length (filter (\<lambda>off. placementFree T occ (pieceStart T i + int off)) [0 ..< pieceCount T i])
          = legalCount T occ i"
    by (simp add: legalCount_def filter_map comp_def)
  then show ?thesis
    using assms by (subst countValid_general) (auto split: option.split)
qed

lemma selectLoop_full:
  assumes "\<And>b. snd best = Some b \<Longrightarrow> 0 < b"
  shows "selectLoop T occ ps ri best = selectLoopFull T occ ps ri best"
  using assms
proof (induction ps arbitrary: ri best)
  case Nil
  show ?case by simp
next
  case (Cons a ps)
  obtain bi bc where b: "best = (bi, bc)" by (cases best)
  have pos: "\<And>b. bc = Some b \<Longrightarrow> 0 < b" using Cons.prems b by simp
  let ?c = "countValid T occ bc (pieceStart T a) [0 ..< pieceCount T a] 0"
  let ?n = "legalCount T occ a"
  have c: "?c = (case bc of None \<Rightarrow> ?n | Some b \<Rightarrow> min b ?n)"
    by (rule countValid_from_zero) (rule pos)
  have same: "(if 0 < ?c \<and> below ?c bc then (Some ri, Some ?c) else (bi, bc))
            = (if 0 < ?n \<and> below ?n bc then (Some ri, Some ?n) else (bi, bc))"
    unfolding c using pos by (cases bc) (auto simp: below_def min_def)
  have "selectLoop T occ ps (ri + 1) (if 0 < ?n \<and> below ?n bc then (Some ri, Some ?n) else (bi, bc))
      = selectLoopFull T occ ps (ri + 1) (if 0 < ?n \<and> below ?n bc then (Some ri, Some ?n) else (bi, bc))"
    by (rule Cons.IH) (use pos in \<open>auto split: if_splits\<close>)
  then show ?case
    unfolding b by (simp add: Let_def same del: One_nat_def)
qed

theorem selectPiece_eq_full: "selectPiece T occ rem = selectPieceFull T occ rem"
  unfolding selectPiece_def selectPieceFull_def
  by (subst selectLoop_full) simp_all

text \<open>The loop invariant after the first \<open>k\<close> pieces.\<close>

definition sel_inv :: "worker_data \<Rightarrow> int list \<Rightarrow> nat list \<Rightarrow> nat \<Rightarrow> nat option \<times> nat option \<Rightarrow> bool" where
  "sel_inv T occ rem k best =
     (case best of
        (None, bc) \<Rightarrow> bc = None \<and> (\<forall>j < k. legalCount T occ (rem ! j) = 0)
      | (Some i, bc) \<Rightarrow> i < k \<and> bc = Some (legalCount T occ (rem ! i))
           \<and> 0 < legalCount T occ (rem ! i)
           \<and> (\<forall>j < k. 0 < legalCount T occ (rem ! j)
                  \<longrightarrow> legalCount T occ (rem ! i) \<le> legalCount T occ (rem ! j))
           \<and> (\<forall>j < i. 0 < legalCount T occ (rem ! j)
                  \<longrightarrow> legalCount T occ (rem ! i) < legalCount T occ (rem ! j)))"

lemma sel_inv_step:
  assumes inv: "sel_inv T occ rem k (bi, bc)" and k: "k < length rem"
  shows "sel_inv T occ rem (Suc k)
           (if 0 < legalCount T occ (rem ! k) \<and> below (legalCount T occ (rem ! k)) bc
            then (Some k, Some (legalCount T occ (rem ! k))) else (bi, bc))"
proof (cases bi)
  case None
  with inv have bc: "bc = None" and z: "\<forall>j < k. legalCount T occ (rem ! j) = 0"
    by (simp_all add: sel_inv_def)
  show ?thesis
  proof (cases "0 < legalCount T occ (rem ! k)")
    case True
    then show ?thesis using z bc
      by (auto simp: sel_inv_def below_def less_Suc_eq)
  next
    case False
    then show ?thesis using z bc None
      by (auto simp: sel_inv_def below_def less_Suc_eq)
  qed
next
  case (Some i)
  with inv have i: "i < k" and bc: "bc = Some (legalCount T occ (rem ! i))"
    and pos: "0 < legalCount T occ (rem ! i)"
    and le: "\<forall>j < k. 0 < legalCount T occ (rem ! j)
                  \<longrightarrow> legalCount T occ (rem ! i) \<le> legalCount T occ (rem ! j)"
    and lt: "\<forall>j < i. 0 < legalCount T occ (rem ! j)
                  \<longrightarrow> legalCount T occ (rem ! i) < legalCount T occ (rem ! j)"
    by (simp_all add: sel_inv_def)
  show ?thesis
  proof (cases "0 < legalCount T occ (rem ! k) \<and> legalCount T occ (rem ! k) < legalCount T occ (rem ! i)")
    case True
    have "\<forall>j < Suc k. 0 < legalCount T occ (rem ! j)
                  \<longrightarrow> legalCount T occ (rem ! k) \<le> legalCount T occ (rem ! j)"
      using le True by (auto simp: less_Suc_eq)
    moreover have "\<forall>j < k. 0 < legalCount T occ (rem ! j)
                  \<longrightarrow> legalCount T occ (rem ! k) < legalCount T occ (rem ! j)"
      using le True by (meson less_le_trans)
    ultimately show ?thesis using True bc
      by (simp add: sel_inv_def below_def)
  next
    case False
    then have nb: "\<not> (0 < legalCount T occ (rem ! k) \<and> below (legalCount T occ (rem ! k)) bc)"
      using bc by (simp add: below_def)
    have "\<forall>j < Suc k. 0 < legalCount T occ (rem ! j)
                  \<longrightarrow> legalCount T occ (rem ! i) \<le> legalCount T occ (rem ! j)"
      using le False by (auto simp: less_Suc_eq)
    then show ?thesis unfolding if_not_P[OF nb] using Some i bc pos lt
      by (simp add: sel_inv_def)
  qed
qed

lemma sel_inv_loop:
  assumes "sel_inv T occ rem k best" and "ps = drop k rem" and "k \<le> length rem"
  shows "sel_inv T occ rem (length rem) (selectLoopFull T occ ps k best)"
  using assms
proof (induction ps arbitrary: k best)
  case Nil
  then show ?case by simp
next
  case (Cons a ps)
  obtain bi bc where b: "best = (bi, bc)" by (cases best)
  from Cons.prems(2) have k: "k < length rem"
    by (metis Cons.prems(3) drop_all le_neq_implies_less list.distinct(1) order_refl)
  from Cons.prems(2) k have a: "a = rem ! k" and ps: "ps = drop (Suc k) rem"
    by (metis Cons_nth_drop_Suc list.inject)+
  have "sel_inv T occ rem (Suc k)
           (if 0 < legalCount T occ (rem ! k) \<and> below (legalCount T occ (rem ! k)) bc
            then (Some k, Some (legalCount T occ (rem ! k))) else (bi, bc))"
    using Cons.prems(1) k unfolding b by (rule sel_inv_step)
  from Cons.IH[OF this ps] k show ?case
    unfolding b a by (simp add: Let_def)
qed

lemma selectPieceFull_inv:
  "sel_inv T occ rem (length rem) (selectLoopFull T occ rem 0 (None, None))"
  by (rule sel_inv_loop) (simp_all add: sel_inv_def)

lemma selectPiece_Some:
  assumes "selectPiece T occ rem = Some ri"
  shows "mostConstrained T occ rem ri"
proof -
  obtain bi bc where r: "selectLoopFull T occ rem 0 (None, None) = (bi, bc)"
    by (cases "selectLoopFull T occ rem 0 (None, None)")
  with assms have "bi = Some ri"
    by (simp add: selectPiece_eq_full selectPieceFull_def)
  with selectPieceFull_inv[of T occ rem] r show ?thesis
    by (simp add: sel_inv_def mostConstrained_def list_all_iff)
qed

lemma selectPiece_None:
  "selectPiece T occ rem = None \<longleftrightarrow> (\<forall>j < length rem. legalCount T occ (rem ! j) = 0)"
proof -
  obtain bi bc where r: "selectLoopFull T occ rem 0 (None, None) = (bi, bc)"
    by (cases "selectLoopFull T occ rem 0 (None, None)")
  have s: "selectPiece T occ rem = bi"
    using r by (simp add: selectPiece_eq_full selectPieceFull_def)
  show ?thesis
  proof (cases bi)
    case None
    with selectPieceFull_inv[of T occ rem] r s show ?thesis
      by (simp add: sel_inv_def)
  next
    case (Some i)
    with selectPieceFull_inv[of T occ rem] r s show ?thesis
      by (auto simp: sel_inv_def)
  qed
qed

lemma length_validPlacements: "length (validPlacements T occ i) = legalCount T occ i"
  by (simp add: validPlacements_def legalCount_def)


text \<open>
  C6.  The piece \<open>backtrack\<close> branches on is the most constrained one: it has a
  currently legal placement, no remaining piece with a legal placement has fewer, and
  the earlier ones with a legal placement have strictly more.  Where no remaining piece
  has a legal placement the call returns \<open>false\<close>.  The counting loop that stops at the
  minimum found so far chooses the same piece as counting in full.
\<close>

theorem most_constrained_piece_selection:
  "selectPiece T occ rem = selectPieceFull T occ rem
   \<and> (\<forall>ri. selectPiece T occ rem = Some ri \<longrightarrow> mostConstrained T occ rem ri)
   \<and> (selectPiece T occ rem = None \<longleftrightarrow> list_all (\<lambda>i. legalCount T occ i = 0) rem)
   \<and> (\<not> shouldStop st0 \<and> \<not> boardSize T \<le> cov
        \<and> \<not> cov + rs \<le> bestCoverage (nodeState T cur cov st0) \<and> rem \<noteq> [] \<longrightarrow>
        (case selectPiece T (occupancy st0) rem of
           None \<Rightarrow> backtrack T rem rs cur cov st0 = (False, nodeState T cur cov st0)
         | Some ri \<Rightarrow>
             backtrack T rem rs cur cov st0 =
               tryPlacements T rem ri rs cur cov
                 (sortByAdj (validPlacements T (occupancy st0) (rem ! ri)))
                 (nodeState T cur cov st0)))"
proof -
  have a: "selectPiece T occ rem = selectPieceFull T occ rem"
    by (rule selectPiece_eq_full)
  have b: "\<forall>ri. selectPiece T occ rem = Some ri \<longrightarrow> mostConstrained T occ rem ri"
    by (simp add: selectPiece_Some)
  have c: "selectPiece T occ rem = None \<longleftrightarrow> list_all (\<lambda>i. legalCount T occ i = 0) rem"
    by (simp add: selectPiece_None list_all_length)
  have o: "occupancy (nodeState T cur cov st0) = occupancy st0"
    by (rule core_fields(1)) simp
  have d: "\<not> shouldStop st0 \<and> \<not> boardSize T \<le> cov
        \<and> \<not> cov + rs \<le> bestCoverage (nodeState T cur cov st0) \<and> rem \<noteq> [] \<longrightarrow>
        (case selectPiece T (occupancy st0) rem of
           None \<Rightarrow> backtrack T rem rs cur cov st0 = (False, nodeState T cur cov st0)
         | Some ri \<Rightarrow>
             backtrack T rem rs cur cov st0 =
               tryPlacements T rem ri rs cur cov
                 (sortByAdj (validPlacements T (occupancy st0) (rem ! ri)))
                 (nodeState T cur cov st0))"
  proof (intro impI, elim conjE)
    assume h: "\<not> shouldStop st0" "\<not> boardSize T \<le> cov"
      "\<not> cov + rs \<le> bestCoverage (nodeState T cur cov st0)" "rem \<noteq> []"
    show "case selectPiece T (occupancy st0) rem of
           None \<Rightarrow> backtrack T rem rs cur cov st0 = (False, nodeState T cur cov st0)
         | Some ri \<Rightarrow>
             backtrack T rem rs cur cov st0 =
               tryPlacements T rem ri rs cur cov
                 (sortByAdj (validPlacements T (occupancy st0) (rem ! ri)))
                 (nodeState T cur cov st0)"
    proof (cases "selectPiece T (occupancy st0) rem")
      case None
      with h show ?thesis by (simp add: backtrack_unfold o)
    next
      case (Some ri)
      then have "0 < legalCount T (occupancy st0) (rem ! ri)"
        using selectPiece_Some[OF Some] by (simp add: mostConstrained_def)
      then have "validPlacements T (occupancy st0) (rem ! ri) \<noteq> []"
        using length_validPlacements[of T "occupancy st0" "rem ! ri"] by auto
      with h Some show ?thesis by (simp add: backtrack_unfold o)
    qed
  qed
  from a b c d show ?thesis by blast
qed

section \<open>Worked examples\<close>

text \<open>A board of four cells in a row and three one-cell pieces, rotations off, four workers.\<close>

definition exA :: solver_input where
  "exA = \<lparr> boardW = 4, boardH = 1,
           inPieces = [\<lparr> piece_id = 1, piece_cells = [Hex 0 0] \<rparr>,
                       \<lparr> piece_id = 2, piece_cells = [Hex 0 0] \<rparr>,
                       \<lparr> piece_id = 3, piece_cells = [Hex 0 0] \<rparr>],
           allowRotations = False, numWorkers = 4 \<rparr>"

definition exA_tables :: "nat \<Rightarrow> int list \<Rightarrow> worker_data" where
  "exA_tables i assigned =
     \<lparr> pieces = [\<lparr>pid = 1, psize = 1\<rparr>, \<lparr>pid = 2, psize = 1\<rparr>, \<lparr>pid = 3, psize = 1\<rparr>],
       boardSize = 4, pieceOrder = [0, 1, 2], workerId = i,
       boardCells = [Hex 0 0, Hex 1 0, Hex 2 0, Hex 3 0],
       neighbors = [[1], [2, 0], [3, 1], [2]],
       placementsMeta =
         [0, 1, 0, 0, 0, 1,  0, 1, 1, 0, 1, 1,  0, 1, 2, 0, 2, 1,  0, 1, 3, 0, 3, 1,
          1, 2, 0, 0, 4, 1,  1, 2, 1, 0, 5, 1,  1, 2, 2, 0, 6, 1,  1, 2, 3, 0, 7, 1,
          2, 3, 0, 0, 8, 1,  2, 3, 1, 0, 9, 1,  2, 3, 2, 0, 10, 1,  2, 3, 3, 0, 11, 1],
       placementsTargets = [0, 1, 2, 3, 0, 1, 2, 3, 0, 1, 2, 3],
       piecePlacementStart = [0, 4, 8], piecePlacementCount = [4, 4, 4],
       assignedPlacementIndices = assigned, initialBestCoverage = 0 \<rparr>"

lemma exA_workerData: "workerData exA i a = exA_tables i a"
  unfolding exA_tables_def by code_simp

lemma exA_packages:
  "workPackages exA = [exA_tables 0 [0], exA_tables 1 [1], exA_tables 2 [2], exA_tables 3 [3]]"
  unfolding exA_tables_def by code_simp

definition oi :: "int \<Rightarrow> int \<Rightarrow> out_item" where
  "oi i a = \<lparr> out_piece = i, out_anchor = Some (Hex a 0), out_rot = 0 \<rparr>"

lemma exA_worker0:
  "completeMessage (exA_tables 0 [0]) =
     \<lparr> msgSolutions = [[oi 1 0, oi 2 1, oi 3 2], [oi 1 0, oi 2 1, oi 3 3]],
       msgCoverage = 3, msgSearchCount = 6, msgWorkerId = 0 \<rparr>"
  unfolding exA_tables_def oi_def by code_simp

lemma exA_worker1:
  "completeMessage (exA_tables 1 [1]) =
     \<lparr> msgSolutions = [[oi 1 1, oi 2 0, oi 3 2], [oi 1 1, oi 2 0, oi 3 3]],
       msgCoverage = 3, msgSearchCount = 6, msgWorkerId = 1 \<rparr>"
  unfolding exA_tables_def oi_def by code_simp

lemma exA_worker2:
  "completeMessage (exA_tables 2 [2]) =
     \<lparr> msgSolutions = [[oi 1 2, oi 2 1, oi 3 0], [oi 1 2, oi 2 1, oi 3 3]],
       msgCoverage = 3, msgSearchCount = 6, msgWorkerId = 2 \<rparr>"
  unfolding exA_tables_def oi_def by code_simp

lemma exA_worker3:
  "completeMessage (exA_tables 3 [3]) =
     \<lparr> msgSolutions = [[oi 1 3, oi 2 2, oi 3 1], [oi 1 3, oi 2 2, oi 3 0]],
       msgCoverage = 3, msgSearchCount = 6, msgWorkerId = 3 \<rparr>"
  unfolding exA_tables_def oi_def by code_simp

lemma exA_run:
  "solveWithWorkers exA [0, 1, 2, 3] =
     \<lparr> m_bestCoverage = 3,
       m_topSolutions = [[oi 1 0, oi 2 1, oi 3 2], [oi 1 0, oi 2 1, oi 3 3],
                         [oi 1 1, oi 2 0, oi 3 2], [oi 1 1, oi 2 0, oi 3 3],
                         [oi 1 2, oi 2 1, oi 3 0], [oi 1 2, oi 2 1, oi 3 3],
                         [oi 1 3, oi 2 2, oi 3 1], [oi 1 3, oi 2 2, oi 3 0]],
       completedWorkers = 4, finished = True \<rparr>"
  unfolding solveWithWorkers_def exA_packages Let_def
  apply (simp add: exA_worker0 exA_worker1 exA_worker2 exA_worker3)
  unfolding exA_def oi_def initialMain_def
  by code_simp

text \<open>A piece id outside 32 bits is stored modulo \<open>2^32\<close>, as the \<open>Int32Array\<close> stores it.\<close>

lemma packMeta_wraps_id:
  "packMeta [\<lparr> pl_pieceIdx = 0, pl_pieceId = 2147483648, pl_anchorIdx = 0, pl_rot = 0,
               pl_targets = [0] \<rparr>] 0 = [0, - 2147483648, 0, 0, 0, 1]"
  by (simp add: to_int32_def)

subsection \<open>The theorems above at a concrete input\<close>

theorem apply_then_undo_restores_witness:
  "placementFree (exA_tables 0 [0]) (occupancy (initialState (exA_tables 0 [0]))) 0
   \<and> (let st1 = applyPlacementByIndex (exA_tables 0 [0]) 0 0 (initialState (exA_tables 0 [0]));
           st2 = undoPlacementByIndex (exA_tables 0 [0]) 0 st1
       in (\<forall>c \<in> set (placementTargets (exA_tables 0 [0]) 0). ta_get (occupancy st2) c = Some (- 1))
        \<and> depth st2 = depth (initialState (exA_tables 0 [0]))
        \<and> (\<forall>c. c \<notin> set (placementTargets (exA_tables 0 [0]) 0) \<longrightarrow>
               ta_get (occupancy st1) c = ta_get (occupancy (initialState (exA_tables 0 [0]))) c
             \<and> ta_get (occupancy st2) c = ta_get (occupancy (initialState (exA_tables 0 [0]))) c)
        \<and> occupancy st2 = occupancy (initialState (exA_tables 0 [0])))"
proof -
  have h1: "placementFree (exA_tables 0 [0]) (occupancy (initialState (exA_tables 0 [0]))) 0"
    unfolding exA_tables_def by code_simp
  have h2: "length (depthStamp (initialState (exA_tables 0 [0])))
            = length (occupancy (initialState (exA_tables 0 [0])))"
    by (simp add: initialState_def)
  have h3: "0 \<le> depth (initialState (exA_tables 0 [0]))"
    and h4: "depth (initialState (exA_tables 0 [0])) < 2147483647"
    by (simp_all add: initialState_def)
  from apply_then_undo_restores[OF h1 h2 h3 h4, of 0] h1 show ?thesis by blast
qed

definition exA_node :: wstate where
  "exA_node = applyPlacementByIndex (exA_tables 0 [0]) 0 0 (initialState (exA_tables 0 [0]))"

theorem most_constrained_piece_selection_witness:
  "selectPiece (exA_tables 0 [0]) (occupancy exA_node) [1, 2] = Some 0
   \<and> mostConstrained (exA_tables 0 [0]) (occupancy exA_node) [1, 2] 0
   \<and> selectPieceFull (exA_tables 0 [0]) (occupancy exA_node) [1, 2] = Some 0
   \<and> \<not> list_all (\<lambda>i. legalCount (exA_tables 0 [0]) (occupancy exA_node) i = 0) [1, 2]
   \<and> backtrack (exA_tables 0 [0]) [1, 2] 2 [firstItem (exA_tables 0 [0]) 0] 1 exA_node =
       tryPlacements (exA_tables 0 [0]) [1, 2] 0 2 [firstItem (exA_tables 0 [0]) 0] 1
         (sortByAdj (validPlacements (exA_tables 0 [0]) (occupancy exA_node) ([1, 2] ! 0)))
         (nodeState (exA_tables 0 [0]) [firstItem (exA_tables 0 [0]) 0] 1 exA_node)"
proof -
  let ?T = "exA_tables 0 [0]"
  let ?cur = "[firstItem ?T 0]"
  have s: "selectPiece ?T (occupancy exA_node) [1, 2] = Some 0"
    unfolding exA_node_def exA_tables_def by code_simp
  have h1: "\<not> shouldStop exA_node"
    by (simp add: exA_node_def initialState_def)
  have h2: "\<not> boardSize ?T \<le> 1"
    by (simp add: exA_tables_def)
  have h3: "\<not> 1 + 2 \<le> bestCoverage (nodeState ?T ?cur 1 exA_node)"
    unfolding nodeState_def exA_node_def exA_tables_def by code_simp
  note main = most_constrained_piece_selection[of ?T "occupancy exA_node" "[1, 2]" exA_node 1 2 ?cur]
  from s h1 h2 h3 main show ?thesis by simp
qed

lemma exA_sizes: "numPlacements exA = 12" "totalTargets exA = 12"
  unfolding numPlacements_def totalTargets_def exA_def by code_simp+

lemma exA_wf_input: "wf_input exA"
  unfolding wf_input_def exA_sizes by (simp add: exA_def fits32_def)

lemma exA_arrivals: "arrivals_ok exA [0, 1, 2, 3]"
  by (simp add: arrivals_ok_def exA_packages)

theorem final_list_signatures_distinct_witness:
  "wf_input exA \<and> arrivals_ok exA [0, 1, 2, 3]
   \<and> distinct (map (m_getSolutionCellSignature exA)
                  (m_topSolutions (solveWithWorkers exA [0, 1, 2, 3])))
   \<and> sort_key fst (m_getSolutionCellSignature exA [oi 1 0, oi 2 1, oi 3 2])
        = m_getSolutionCellSignature exA [oi 1 0, oi 2 1, oi 3 2]
   \<and> sort_key fst (getSolutionCellSignature (exA_tables 0 [0]) [firstItem (exA_tables 0 [0]) 0])
        = getSolutionCellSignature (exA_tables 0 [0]) [firstItem (exA_tables 0 [0]) 0]"
proof -
  note main = final_list_signatures_distinct[OF exA_wf_input exA_arrivals,
      of "[oi 1 0, oi 2 1, oi 3 2]" "exA_tables 0 [0]" "[firstItem (exA_tables 0 [0]) 0]"]
  from exA_wf_input exA_arrivals main show ?thesis by (intro conjI) (elim conjE, assumption)+
qed

theorem final_solutions_are_packings_witness:
  "wf_input exA \<and> arrivals_ok exA [0, 1, 2, 3]
   \<and> [oi 1 0, oi 2 1, oi 3 2] \<in> set (m_topSolutions (solveWithWorkers exA [0, 1, 2, 3]))
   \<and> set (replayTargets exA (oi 1 0)) \<inter> set (replayTargets exA (oi 2 1)) = {}
   \<and> list_all (legalPlacement exA) [oi 1 0, oi 2 1, oi 3 2]"
proof -
  let ?s = "[oi 1 0, oi 2 1, oi 3 2]"
  have m: "?s \<in> set (m_topSolutions (solveWithWorkers exA [0, 1, 2, 3]))"
    unfolding exA_run by simp
  from final_solutions_are_packings[OF exA_wf_input exA_arrivals] m
  have a: "\<forall>i < length ?s. \<forall>j < length ?s. i \<noteq> j \<longrightarrow>
               set (replayTargets exA (?s ! i)) \<inter> set (replayTargets exA (?s ! j)) = {}"
    and b: "list_all (legalPlacement exA) ?s"
    by blast+
  have "(0::nat) < length ?s" "(1::nat) < length ?s" "(0::nat) \<noteq> 1" by simp_all
  with a have "set (replayTargets exA (?s ! 0)) \<inter> set (replayTargets exA (?s ! 1)) = {}"
    by blast
  then have c: "set (replayTargets exA (oi 1 0)) \<inter> set (replayTargets exA (oi 2 1)) = {}"
    by simp
  from exA_wf_input exA_arrivals m b c show ?thesis by (intro conjI)
qed

lemma exA_all_arrived: "set [0, 1, 2, 3] = {0 ..< length (workPackages exA)}"
  unfolding exA_packages by (simp add: atLeastLessThan_def lessThan_def) auto

theorem single_worker_coverage_at_least_sharded_witness:
  "wf_input exA \<and> arrivals_ok exA [0, 1, 2, 3]
   \<and> 0 < numWorkers exA \<and> set [0, 1, 2, 3] = {0 ..< length (workPackages exA)}
   \<and> m_bestCoverage (solveWithWorkers exA [0, 1, 2, 3]) = 3
   \<and> m_bestCoverage (solveWithWorkers (exA\<lparr> numWorkers := 1 \<rparr>)
         [0 ..< length (workPackages (exA\<lparr> numWorkers := 1 \<rparr>))]) = 3"
proof -
  have h: "0 < numWorkers exA" by (simp add: exA_def)
  have b: "m_bestCoverage (solveWithWorkers exA [0, 1, 2, 3]) = 3"
    unfolding exA_run by simp
  from single_worker_coverage_at_least_sharded[OF exA_wf_input exA_arrivals] h exA_all_arrived
  have "m_bestCoverage (solveWithWorkers exA [0, 1, 2, 3])
          = m_bestCoverage (solveWithWorkers (exA\<lparr> numWorkers := 1 \<rparr>)
              [0 ..< length (workPackages (exA\<lparr> numWorkers := 1 \<rparr>))])"
    by blast
  with b have s: "m_bestCoverage (solveWithWorkers (exA\<lparr> numWorkers := 1 \<rparr>)
         [0 ..< length (workPackages (exA\<lparr> numWorkers := 1 \<rparr>))]) = 3"
    by simp
  from exA_wf_input exA_arrivals h exA_all_arrived b s show ?thesis by (intro conjI)
qed

theorem final_list_reaches_best_coverage_witness:
  "wf_input exA \<and> arrivals_ok exA [0, 1, 2, 3]
   \<and> m_bestCoverage (solveWithWorkers exA [0, 1, 2, 3]) = 3
   \<and> m_topSolutions (solveWithWorkers exA [0, 1, 2, 3]) \<noteq> []
   \<and> [oi 1 0, oi 2 1, oi 3 2] \<in> set (m_topSolutions (solveWithWorkers exA [0, 1, 2, 3]))
   \<and> legalPacking exA [oi 1 0, oi 2 1, oi 3 2]
   \<and> packingCoverage exA [oi 1 0, oi 2 1, oi 3 2] = 3"
proof -
  let ?s = "[oi 1 0, oi 2 1, oi 3 2]"
  have b: "m_bestCoverage (solveWithWorkers exA [0, 1, 2, 3]) = 3"
    unfolding exA_run by simp
  have m: "?s \<in> set (m_topSolutions (solveWithWorkers exA [0, 1, 2, 3]))"
    unfolding exA_run by simp
  note main = final_list_reaches_best_coverage[OF exA_wf_input exA_arrivals]
  from main b have ne: "m_topSolutions (solveWithWorkers exA [0, 1, 2, 3]) \<noteq> []" by simp
  from main m have "legalPacking exA ?s
      \<and> packingCoverage exA ?s = m_bestCoverage (solveWithWorkers exA [0, 1, 2, 3])"
    by blast
  with b have l: "legalPacking exA ?s" and c: "packingCoverage exA ?s = 3" by simp_all
  from exA_wf_input exA_arrivals b ne m l c show ?thesis by (intro conjI)
qed

section \<open>Where the code departs from the specification\<close>

text \<open>
  C1, as stated, fails.  On \<open>exA\<close> the three pieces cover at most three cells, the run
  ends with best coverage 3, and piece 1 on cell 0, piece 2 on cell 2, piece 3 on cell 1
  is a legal packing of coverage 3; its covering is not in the final list.  (The worker
  that starts with piece 1 on cell 0 reaches coverage 3 below piece 2 on cell 1 and then
  prunes piece 2 on cell 2, where coverage plus remaining sizes is 3: the guard of the
  prune is \<open>coverage + remainingSum <= bestCoverage\<close>.)
\<close>

theorem tied_covering_missing_counterexample:
  "finished (solveWithWorkers exA [0, 1, 2, 3])
   \<and> m_bestCoverage (solveWithWorkers exA [0, 1, 2, 3]) = 3
   \<and> map (length \<circ> piece_cells) (inPieces exA) = [1, 1, 1]
   \<and> legalPacking exA [oi 1 0, oi 2 2, oi 3 1]
   \<and> packingCoverage exA [oi 1 0, oi 2 2, oi 3 1] = 3
   \<and> m_getSolutionCellSignature exA [oi 1 0, oi 2 2, oi 3 1]
        \<notin> set (map (m_getSolutionCellSignature exA)
                   (m_topSolutions (solveWithWorkers exA [0, 1, 2, 3])))"
  unfolding exA_run
  unfolding exA_def oi_def legalPacking_def legalPlacement_def packingCoverage_def
  by code_simp

text \<open>
  The solver is introduced as a \<open>backtracking algorithm to find optimal coverage\<close>, but
  the best coverage of a completed run can be below the coverage of a legal packing.
  \<open>exE\<close> is a board of four cells in a column with two pieces of two cells and one of
  three, rotations off, two workers.  The piece of three cells has the fewest placements
  and comes first in the static order.  Each worker places it, finds that neither piece
  of two cells fits in the one cell left, and ends with coverage 3; \<open>backtrack\<close> has no
  branch that leaves out a piece that can be placed, and \<open>solve\<close> none that leaves out
  the first piece, so the two pieces of two cells, which cover the whole board, are
  never tried together.
\<close>

definition exE :: solver_input where
  "exE = \<lparr> boardW = 1, boardH = 4,
           inPieces = [\<lparr> piece_id = 1, piece_cells = [Hex 0 0, Hex 0 1] \<rparr>,
                       \<lparr> piece_id = 2, piece_cells = [Hex 0 0, Hex 0 1] \<rparr>,
                       \<lparr> piece_id = 3, piece_cells = [Hex 0 0, Hex 0 1, Hex 0 2] \<rparr>],
           allowRotations = False, numWorkers = 2 \<rparr>"

definition exE_tables :: "nat \<Rightarrow> int list \<Rightarrow> worker_data" where
  "exE_tables i assigned =
     \<lparr> pieces = [\<lparr>pid = 1, psize = 2\<rparr>, \<lparr>pid = 2, psize = 2\<rparr>, \<lparr>pid = 3, psize = 3\<rparr>],
       boardSize = 4, pieceOrder = [2, 0, 1], workerId = i,
       boardCells = [Hex 0 0, Hex 0 1, Hex 0 2, Hex 0 3],
       neighbors = [[1], [0, 2], [1, 3], [2]],
       placementsMeta =
         [0, 1, 0, 0, 0, 2,  0, 1, 1, 0, 2, 2,  0, 1, 2, 0, 4, 2,
          1, 2, 0, 0, 6, 2,  1, 2, 1, 0, 8, 2,  1, 2, 2, 0, 10, 2,
          2, 3, 0, 0, 12, 3,  2, 3, 1, 0, 15, 3],
       placementsTargets = [0, 1, 1, 2, 2, 3, 0, 1, 1, 2, 2, 3, 0, 1, 2, 1, 2, 3],
       piecePlacementStart = [0, 3, 6], piecePlacementCount = [3, 3, 2],
       assignedPlacementIndices = assigned, initialBestCoverage = 0 \<rparr>"

lemma exE_packages: "workPackages exE = [exE_tables 0 [6], exE_tables 1 [7]]"
  unfolding exE_tables_def by code_simp

definition ov :: "int \<Rightarrow> int \<Rightarrow> out_item" where
  "ov i a = \<lparr> out_piece = i, out_anchor = Some (Hex 0 a), out_rot = 0 \<rparr>"

lemma exE_worker0:
  "completeMessage (exE_tables 0 [6]) =
     \<lparr> msgSolutions = [[ov 3 0]], msgCoverage = 3, msgSearchCount = 1, msgWorkerId = 0 \<rparr>"
  unfolding exE_tables_def ov_def by code_simp

lemma exE_worker1:
  "completeMessage (exE_tables 1 [7]) =
     \<lparr> msgSolutions = [[ov 3 1]], msgCoverage = 3, msgSearchCount = 1, msgWorkerId = 1 \<rparr>"
  unfolding exE_tables_def ov_def by code_simp

lemma exE_run:
  "solveWithWorkers exE [0, 1] =
     \<lparr> m_bestCoverage = 3, m_topSolutions = [[ov 3 0], [ov 3 1]],
       completedWorkers = 2, finished = True \<rparr>"
  unfolding solveWithWorkers_def exE_packages Let_def
  apply (simp add: exE_worker0 exE_worker1)
  unfolding exE_def ov_def initialMain_def
  by code_simp

lemma exE_sizes: "numPlacements exE = 8" "totalTargets exE = 18"
  unfolding numPlacements_def totalTargets_def exE_def by code_simp+

lemma exE_wf_input: "wf_input exE"
  unfolding wf_input_def exE_sizes by (simp add: exE_def fits32_def)

lemma exE_larger_packing_missed:
  "wf_input exE \<and> finished (solveWithWorkers exE [0, 1])
   \<and> m_bestCoverage (solveWithWorkers exE [0, 1]) = 3
   \<and> legalPacking exE [ov 1 0, ov 2 2]
   \<and> packingCoverage exE [ov 1 0, ov 2 2] = 4"
proof -
  have "finished (solveWithWorkers exE [0, 1])
   \<and> m_bestCoverage (solveWithWorkers exE [0, 1]) = 3
   \<and> legalPacking exE [ov 1 0, ov 2 2]
   \<and> packingCoverage exE [ov 1 0, ov 2 2] = 4"
    unfolding exE_run
    unfolding exE_def ov_def legalPacking_def legalPlacement_def packingCoverage_def
    by code_simp
  with exE_wf_input show ?thesis by simp
qed

text \<open>A board of one cell and one one-cell piece, rotations on, four workers.\<close>

definition exB :: solver_input where
  "exB = \<lparr> boardW = 1, boardH = 1,
           inPieces = [\<lparr> piece_id = 1, piece_cells = [Hex 0 0] \<rparr>],
           allowRotations = True, numWorkers = 4 \<rparr>"

definition exB_tables :: "nat \<Rightarrow> int list \<Rightarrow> worker_data" where
  "exB_tables i assigned =
     \<lparr> pieces = [\<lparr>pid = 1, psize = 1\<rparr>],
       boardSize = 1, pieceOrder = [0], workerId = i,
       boardCells = [Hex 0 0],
       neighbors = [[]],
       placementsMeta =
         [0, 1, 0, 0, 0, 1,  0, 1, 0, 1, 1, 1,  0, 1, 0, 2, 2, 1,
          0, 1, 0, 3, 3, 1,  0, 1, 0, 4, 4, 1,  0, 1, 0, 5, 5, 1],
       placementsTargets = [0, 0, 0, 0, 0, 0],
       piecePlacementStart = [0], piecePlacementCount = [6],
       assignedPlacementIndices = assigned, initialBestCoverage = 0 \<rparr>"

lemma exB_packages:
  "workPackages exB = [exB_tables 0 [0, 1], exB_tables 1 [2, 3], exB_tables 2 [4, 5]]"
  unfolding exB_tables_def by code_simp

text \<open>
  C4.  The first worker of \<open>exB\<close> is given the placements 0 and 1.  After placement 0
  alone its best coverage is the board size, a perfect cover, found in one call of
  \<open>backtrack\<close> that returned \<open>true\<close>; the loop of \<open>solve\<close> nevertheless goes on to
  placement 1 and calls \<open>backtrack\<close> a second time.
\<close>

theorem top_loop_continues_after_perfect_cover:
  "hd (workPackages exB) = exB_tables 0 [0, 1]
   \<and> fst (backtrack (exB_tables 0 [0, 1]) [] 0 [firstItem (exB_tables 0 [0, 1]) 0] 1
            (applyPlacementByIndex (exB_tables 0 [0, 1]) 0 0 (initialState (exB_tables 0 [0, 1]))))
   \<and> bestCoverage (solveLoop (exB_tables 0 [0, 1]) [0] (initialState (exB_tables 0 [0, 1])))
        = boardSize (exB_tables 0 [0, 1])
   \<and> searchCount (solveLoop (exB_tables 0 [0, 1]) [0] (initialState (exB_tables 0 [0, 1]))) = 1
   \<and> searchCount (solve (exB_tables 0 [0, 1])) = 2"
  unfolding exB_packages
  unfolding exB_tables_def
  by code_simp

text \<open>
  C3.  A board of one cell with a two-cell piece, and a board of two cells with a
  one-cell piece and a three-cell piece.  In both the piece that fits nowhere comes
  first in the static order, its placement count 0 is the number of first-piece
  placements, no worker is created, no \<open>COMPLETE\<close> message ever arrives and the final
  report is never made.
\<close>

definition exC :: solver_input where
  "exC = \<lparr> boardW = 1, boardH = 1,
           inPieces = [\<lparr> piece_id = 1, piece_cells = [Hex 0 0, Hex 0 1] \<rparr>],
           allowRotations = True, numWorkers = 4 \<rparr>"

definition exD :: solver_input where
  "exD = \<lparr> boardW = 2, boardH = 1,
           inPieces = [\<lparr> piece_id = 1, piece_cells = [Hex 0 0] \<rparr>,
                       \<lparr> piece_id = 2, piece_cells = [Hex 0 (- 1), Hex 0 0, Hex 0 1] \<rparr>],
           allowRotations = True, numWorkers = 4 \<rparr>"

theorem unplaceable_piece_no_completion:
  "piecePlacements exC = [[]] \<and> workPackages exC = []
   \<and> \<not> finished (solveWithWorkers exC [])
   \<and> length (piecePlacements exD ! 0) = 12 \<and> piecePlacements exD ! 1 = []
   \<and> workPackages exD = [] \<and> \<not> finished (solveWithWorkers exD [])"
  unfolding solveWithWorkers_def initialMain_def exC_def exD_def
  by code_simp

end
